theory Spec2Isabelle
  imports Main "HOL-Library.Word" "HOL-Library.Char_ord" "HOL-Library.List_Lexorder"
begin

unbundle bit_operations_syntax

section \<open>Values shared by the scripts\<close>

text \<open>
  The scripts of \<^verbatim>\<open>UniswapV4SlotFinder\<close> handle three kinds of data: hexadecimal
  strings (pool ids, addresses), byte sequences (the output of the ABI coder, the input of
  the hash) and 32-byte storage words. JavaScript strings are modelled as \<^typ>\<open>string\<close>,
  with every \<^typ>\<open>char\<close> read as a code unit below 256; byte sequences are lists of
  8-bit words; a storage word as returned by the node (\<^verbatim>\<open>0x\<close> and 64 lower-case
  hexadecimal digits) is a 256-bit word. An exception thrown by the library or by the
  provider is a value of type \<open>error\<close>, and a function that can throw returns
  \<open>error + 'a\<close>.
\<close>

type_synonym byte = "8 word"
type_synonym bytes = "byte list"

datatype error =
    InvalidBytesLike
  | IncorrectDataLength
  | NumericOverflow
  | NegativeValue
  | ValueOutOfBounds
  | TooLow
  | TooHigh
  | InvalidAddress
  | BadAddressChecksum
  | BadIcapChecksum
  | InvalidValue
  | ReaderFailure

text \<open>
  A numeric argument is either a JavaScript number holding an integer or a BigInt. The
  scripts pass numbers only (\<^verbatim>\<open>POOL_STATE_SLOT\<close>, the loop counters, \<^verbatim>\<open>fee\<close>,
  \<^verbatim>\<open>tickSpacing\<close>).
\<close>

datatype BigNumberish = Number int | BigInt int

section \<open>Keccak-256 (\<^verbatim>\<open>ethers.keccak256\<close>)\<close>

text \<open>
  The hash of the library is Keccak-256 with the original padding: rate 136 bytes, 24
  rounds of Keccak-f[1600] on 25 little-endian 64-bit lanes, lane \<open>(x, y)\<close> at index
  \<open>x + 5 * y\<close>.
\<close>

type_synonym lane = "64 word"

definition RC :: "lane list" where
  "RC = [0x0000000000000001, 0x0000000000008082, 0x800000000000808A, 0x8000000080008000,
         0x000000000000808B, 0x0000000080000001, 0x8000000080008081, 0x8000000000008009,
         0x000000000000008A, 0x0000000000000088, 0x0000000080008009, 0x000000008000000A,
         0x000000008000808B, 0x800000000000008B, 0x8000000000008089, 0x8000000000008003,
         0x8000000000008002, 0x8000000000000080, 0x000000000000800A, 0x800000008000000A,
         0x8000000080008081, 0x8000000000008080, 0x0000000080000001, 0x8000000080008008]"

definition ROT :: "nat list" where
  "ROT = [ 0,  1, 62, 28, 27,
          36, 44,  6, 55, 20,
           3, 10, 43, 25, 39,
          41, 45, 15, 21,  8,
          18,  2, 61, 56, 14]"

definition theta :: "lane list \<Rightarrow> lane list" where
  "theta a =
     (let c = map (\<lambda>x. a ! x XOR a ! (x + 5) XOR a ! (x + 10) XOR a ! (x + 15) XOR a ! (x + 20)) [0..<5];
          d = map (\<lambda>x. c ! ((x + 4) mod 5) XOR word_rotl 1 (c ! ((x + 1) mod 5))) [0..<5]
      in map (\<lambda>i. a ! i XOR d ! (i mod 5)) [0..<25])"

definition rho_pi :: "lane list \<Rightarrow> lane list" where
  "rho_pi a =
     map (\<lambda>j. let x = (j mod 5 + 3 * (j div 5)) mod 5; y = j mod 5
              in word_rotl (ROT ! (x + 5 * y)) (a ! (x + 5 * y))) [0..<25]"

definition chi :: "lane list \<Rightarrow> lane list" where
  "chi b =
     map (\<lambda>i. let x = i mod 5; y = i div 5
              in b ! i XOR (NOT (b ! ((x + 1) mod 5 + 5 * y)) AND b ! ((x + 2) mod 5 + 5 * y)))
       [0..<25]"

definition iota :: "nat \<Rightarrow> lane list \<Rightarrow> lane list" where
  "iota r a = a[0 := a ! 0 XOR RC ! r]"

definition keccak_round :: "lane list \<Rightarrow> nat \<Rightarrow> lane list" where
  "keccak_round a r = iota r (chi (rho_pi (theta a)))"

definition keccak_f :: "lane list \<Rightarrow> lane list" where
  "keccak_f a = foldl keccak_round a [0..<24]"

definition lane_of_bytes :: "bytes \<Rightarrow> lane" where
  "lane_of_bytes bs = foldr (\<lambda>b w. push_bit 8 w OR ucast b) bs 0"

definition bytes_of_lane :: "lane \<Rightarrow> bytes" where
  "bytes_of_lane w = map (\<lambda>i. ucast (drop_bit (8 * i) w)) [0..<8]"

fun lanes_of_block :: "nat \<Rightarrow> bytes \<Rightarrow> lane list" where
  "lanes_of_block 0 bs = []"
| "lanes_of_block (Suc n) bs = lane_of_bytes (take 8 bs) # lanes_of_block n (drop 8 bs)"

definition absorb_block :: "lane list \<Rightarrow> bytes \<Rightarrow> lane list" where
  "absorb_block a blk =
     keccak_f (map2 (XOR) a (lanes_of_block 17 blk @ replicate 8 0))"

definition keccak_pad :: "bytes \<Rightarrow> bytes" where
  "keccak_pad m =
     (let q = 136 - length m mod 136
      in if q = 1 then m @ [0x81] else m @ [0x01] @ replicate (q - 2) 0 @ [0x80])"

fun absorb :: "nat \<Rightarrow> lane list \<Rightarrow> bytes \<Rightarrow> lane list" where
  "absorb 0 a m = a"
| "absorb (Suc n) a m = absorb n (absorb_block a (take 136 m)) (drop 136 m)"

definition keccak256 :: "bytes \<Rightarrow> bytes" where
  "keccak256 m =
     (let p = keccak_pad m
      in concat (map bytes_of_lane (take 4 (absorb (length p div 136) (replicate 25 0) p))))"

section \<open>The library functions the scripts call (\<^verbatim>\<open>ethers\<close> v6)\<close>

subsection \<open>Hexadecimal strings\<close>

text \<open>
  \<^verbatim>\<open>String.prototype.toLowerCase\<close> on code units below 256: the letters
  \<^verbatim>\<open>A\<close> to \<^verbatim>\<open>Z\<close> and the accented capitals of Latin-1 move up by 32.
  \<^verbatim>\<open>toUpperCase\<close> is only ever applied to hexadecimal digits.
\<close>

definition toLowerCase_char :: "char \<Rightarrow> char" where
  "toLowerCase_char c =
     (let n = (of_char c :: nat)
      in if (65 \<le> n \<and> n \<le> 90) \<or> (192 \<le> n \<and> n \<le> 214) \<or> (216 \<le> n \<and> n \<le> 222)
         then char_of (n + 32) else c)"

definition toLowerCase :: "string \<Rightarrow> string" where
  "toLowerCase s = map toLowerCase_char s"

definition toUpperCase_char :: "char \<Rightarrow> char" where
  "toUpperCase_char c =
     (let n = (of_char c :: nat)
      in if 97 \<le> n \<and> n \<le> 122 then char_of (n - 32) else c)"

text \<open>The value of a hexadecimal digit, as \<^verbatim>\<open>parseInt(_, 16)\<close> reads it.\<close>

definition hexval :: "char \<Rightarrow> nat option" where
  "hexval c =
     (let n = (of_char c :: nat)
      in if 48 \<le> n \<and> n \<le> 57 then Some (n - 48)
         else if 97 \<le> n \<and> n \<le> 102 then Some (n - 87)
         else if 65 \<le> n \<and> n \<le> 70 then Some (n - 55)
         else None)"

fun hex_pairs :: "string \<Rightarrow> bytes option" where
  "hex_pairs [] = Some []"
| "hex_pairs [c] = None"
| "hex_pairs (c # d # cs) =
     (case hexval c of
        None \<Rightarrow> None
      | Some h \<Rightarrow>
          (case hexval d of
             None \<Rightarrow> None
           | Some l \<Rightarrow>
               (case hex_pairs cs of
                  None \<Rightarrow> None
                | Some bs \<Rightarrow> Some (of_nat (16 * h + l) # bs))))"

text \<open>
  \<^verbatim>\<open>getBytes\<close>: a string is accepted when it matches
  \<^verbatim>\<open>/^0x(?:[0-9a-f][0-9a-f])*$/i\<close>; anything else throws.
\<close>

fun getBytes :: "string \<Rightarrow> error + bytes" where
  "getBytes (z # x # cs) =
     (if z = CHR ''0'' \<and> (x = CHR ''x'' \<or> x = CHR ''X'')
      then (case hex_pairs cs of None \<Rightarrow> Inl InvalidBytesLike | Some bs \<Rightarrow> Inr bs)
      else Inl InvalidBytesLike)"
| "getBytes _ = Inl InvalidBytesLike"

subsection \<open>Numbers\<close>

definition maxValue :: int where
  "maxValue = 0x1fffffffffffff"

text \<open>\<^verbatim>\<open>getBigInt\<close>: a number outside the safe integers throws.\<close>

fun getBigInt :: "BigNumberish \<Rightarrow> error + int" where
  "getBigInt (BigInt v) = Inr v"
| "getBigInt (Number v) =
     (if - maxValue \<le> v \<and> v \<le> maxValue then Inr v else Inl NumericOverflow)"

text \<open>\<^verbatim>\<open>toBeArray\<close>: the shortest big-endian byte sequence of an unsigned value.\<close>

fun be_bytes :: "nat \<Rightarrow> bytes" where
  "be_bytes n = (if n = 0 then [] else be_bytes (n div 256) @ [of_nat n])"

declare be_bytes.simps [simp del]

definition toBeArray :: "int \<Rightarrow> error + bytes" where
  "toBeArray v = (if v < 0 then Inl NegativeValue else Inr (be_bytes (nat v)))"

text \<open>\<^verbatim>\<open>toTwos(value, width)\<close>.\<close>

definition toTwos :: "int \<Rightarrow> nat \<Rightarrow> error + int" where
  "toTwos v width =
     (let limit = push_bit (width - 1) 1
      in if v < 0
         then (if - v \<le> limit then Inr ((NOT (- v) AND (push_bit width 1 - 1)) + 1)
               else Inl TooLow)
         else (if v < limit then Inr v else Inl TooHigh))"

text \<open>
  \<^verbatim>\<open>Writer.writeValue\<close>: the value as one 32-byte word, zeros on the left.
\<close>

definition writeValue :: "int \<Rightarrow> error + bytes" where
  "writeValue v =
     (case toBeArray v of
        Inl e \<Rightarrow> Inl e
      | Inr bs \<Rightarrow>
          if 32 < length bs then Inl ValueOutOfBounds
          else Inr (replicate (32 - length bs) 0 @ bs))"

subsection \<open>Addresses\<close>

text \<open>
  \<^verbatim>\<open>getChecksumAddress\<close>: the digits in lower case, each letter raised when the
  matching hexadecimal digit of the hash of the first 40 digits is 8 or more.
\<close>

definition is_hex :: "char \<Rightarrow> bool" where
  "is_hex c = (hexval c \<noteq> None)"

definition nibbles :: "bytes \<Rightarrow> byte list" where
  "nibbles bs = concat (map (\<lambda>b. [drop_bit 4 b, b AND 0x0f]) bs)"

definition getChecksumAddress :: "string \<Rightarrow> string" where
  "getChecksumAddress address =
     (let chars = drop 2 (toLowerCase address);
          expanded = map (\<lambda>c. of_nat (of_char c)) (take 40 chars);
          hashed = keccak256 expanded
      in ''0x'' @ map2 (\<lambda>c h. if 8 \<le> h then toUpperCase_char c else c) (take 40 chars)
                    (nibbles (take 20 hashed))
              @ drop 40 chars)"

text \<open>
  The number a string of hexadecimal digits denotes (\<^verbatim>\<open>BigInt\<close> of the string
  after its \<^verbatim>\<open>0x\<close>).
\<close>

definition digit :: "char \<Rightarrow> nat" where
  "digit c = (case hexval c of None \<Rightarrow> 0 | Some h \<Rightarrow> h)"

fun hex_value :: "string \<Rightarrow> nat" where
  "hex_value [] = 0"
| "hex_value (c # cs) = digit c * 16 ^ length cs + hex_value cs"

text \<open>
  The ICAP notation of an address: \<^verbatim>\<open>XE\<close>, two check digits and 30 or 31 digits
  in base 36. \<^verbatim>\<open>ibanChecksum\<close> moves the first four characters behind the rest,
  writes every letter as a number from 10 to 35, and reduces the decimal string modulo 97
  in blocks of 15 digits. All of this runs on strings of ASCII letters and digits only.
\<close>

fun dec :: "nat \<Rightarrow> string" where
  "dec n = (if n < 10 then [char_of (48 + n)] else dec (n div 10) @ [char_of (48 + n mod 10)])"

declare dec.simps [simp del]

definition parse_dec :: "string \<Rightarrow> nat" where
  "parse_dec s = foldl (\<lambda>v c. 10 * v + (of_char c - 48)) 0 s"

definition ibanLookup :: "char \<Rightarrow> string" where
  "ibanLookup c =
     (let n = (of_char c :: nat)
      in if 48 \<le> n \<and> n \<le> 57 then [c] else if 65 \<le> n \<and> n \<le> 90 then dec (n - 55) else [])"

function iban_reduce :: "string \<Rightarrow> string" where
  "iban_reduce expanded =
     (if 15 \<le> length expanded
      then iban_reduce (dec (parse_dec (take 15 expanded) mod 97) @ drop 15 expanded)
      else expanded)"
  by pat_completeness auto
termination
proof (relation "measure length")
  show "wf (measure length)"
    by simp
next
  fix expanded :: string
  assume a: "15 \<le> length expanded"
  define m where "m = parse_dec (take 15 expanded) mod 97"
  have "m < 97"
    by (simp add: m_def)
  then have "m div 10 < 10"
    by simp
  then have "dec (m div 10) = [char_of (48 + m div 10)]"
    by (subst dec.simps) simp
  then have "length (dec m) \<le> 2"
    by (subst dec.simps) simp
  with a show "(dec (parse_dec (take 15 expanded) mod 97) @ drop 15 expanded, expanded)
      \<in> measure length"
    by (simp add: m_def)
qed

declare iban_reduce.simps [simp del]

definition ibanChecksum :: "string \<Rightarrow> string" where
  "ibanChecksum address =
     (let a = map toUpperCase_char address;
          expanded = iban_reduce (concat (map ibanLookup (drop 4 a @ take 2 a @ ''00'')));
          checksum = dec (98 - parse_dec expanded mod 97)
      in replicate (2 - length checksum) CHR ''0'' @ checksum)"

definition is_digit_char :: "char \<Rightarrow> bool" where
  "is_digit_char c = (48 \<le> (of_char c :: nat) \<and> (of_char c :: nat) \<le> 57)"

definition is_alnum :: "char \<Rightarrow> bool" where
  "is_alnum c =
     (let n = (of_char c :: nat)
      in (48 \<le> n \<and> n \<le> 57) \<or> (65 \<le> n \<and> n \<le> 90) \<or> (97 \<le> n \<and> n \<le> 122))"

definition icap_match :: "string \<Rightarrow> bool" where
  "icap_match s =
     ((length s = 34 \<or> length s = 35) \<and> take 2 s = ''XE'' \<and>
      list_all is_digit_char (take 2 (drop 2 s)) \<and> list_all is_alnum (drop 4 s))"

definition base36_index :: "char \<Rightarrow> nat" where
  "base36_index c =
     (let n = (of_char c :: nat) in if 48 \<le> n \<and> n \<le> 57 then n - 48 else n - 87)"

definition fromBase36 :: "string \<Rightarrow> nat" where
  "fromBase36 v = foldl (\<lambda>r c. r * 36 + base36_index c) 0 (toLowerCase v)"

fun hex_string :: "nat \<Rightarrow> string" where
  "hex_string n =
     (if n < 16 then [char_of (if n < 10 then 48 + n else 87 + n)]
      else hex_string (n div 16) @ [char_of (if n mod 16 < 10 then 48 + n mod 16 else 87 + n mod 16)])"

declare hex_string.simps [simp del]

text \<open>
  \<^verbatim>\<open>getAddress\<close> accepts a string matching \<^verbatim>\<open>/^(0x)?[0-9a-fA-F]{40}$/\<close>,
  adds the missing prefix, and rejects a mixed-case string that is not its own checksummed
  form; it also accepts a string matching \<^verbatim>\<open>/^XE[0-9]{2}[0-9A-Za-z]{30,31}$/\<close>
  whose check digits are right. The result is always the checksummed form.
\<close>

definition address_body :: "string \<Rightarrow> string option" where
  "address_body s =
     (if length s = 42 \<and> take 2 s = ''0x'' \<and> list_all is_hex (drop 2 s) then Some (drop 2 s)
      else if length s = 40 \<and> list_all is_hex s then Some s
      else None)"

definition mixed_case :: "string \<Rightarrow> bool" where
  "mixed_case s =
     ((\<exists>c \<in> set s. 65 \<le> (of_char c :: nat) \<and> (of_char c :: nat) \<le> 70) \<and>
      (\<exists>c \<in> set s. 97 \<le> (of_char c :: nat) \<and> (of_char c :: nat) \<le> 102))"

definition getAddress :: "string \<Rightarrow> error + string" where
  "getAddress s =
     (case address_body s of
        Some body \<Rightarrow>
          (let address = ''0x'' @ body;
               result = getChecksumAddress address
           in if mixed_case address \<and> result \<noteq> address then Inl BadAddressChecksum
              else Inr result)
      | None \<Rightarrow>
          if icap_match s
          then (if take 2 (drop 2 s) \<noteq> ibanChecksum s then Inl BadIcapChecksum
                else (let result = hex_string (fromBase36 (drop 4 s))
                      in Inr (getChecksumAddress
                                (''0x'' @ replicate (40 - length result) CHR ''0'' @ result))))
          else Inl InvalidAddress)"

subsection \<open>The ABI coder and the packed encoder\<close>

text \<open>
  A value together with the type string it is encoded under:
  \<^verbatim>\<open>address\<close>, \<^verbatim>\<open>bytes32\<close>, \<^verbatim>\<open>uintN\<close> and \<^verbatim>\<open>intN\<close>.
\<close>

datatype abi_value =
    AbiAddress string
  | AbiBytes32 string
  | AbiUint nat BigNumberish
  | AbiInt nat BigNumberish

definition AddressCoder_encode :: "string \<Rightarrow> error + bytes" where
  "AddressCoder_encode v =
     (case getAddress v of
        Inl e \<Rightarrow> Inl e
      | Inr a \<Rightarrow> writeValue (int (hex_value (drop 2 a))))"

definition FixedBytesCoder_encode :: "string \<Rightarrow> error + bytes" where
  "FixedBytesCoder_encode v =
     (case getBytes v of
        Inl e \<Rightarrow> Inl e
      | Inr d \<Rightarrow> if length d \<noteq> 32 then Inl IncorrectDataLength else Inr d)"

definition NumberCoder_encode :: "nat \<Rightarrow> bool \<Rightarrow> BigNumberish \<Rightarrow> error + bytes" where
  "NumberCoder_encode bits is_signed v =
     (case getBigInt v of
        Inl e \<Rightarrow> Inl e
      | Inr val \<Rightarrow>
          if is_signed
          then (let bounds = mask (bits - 1)
                in if val > bounds \<or> val < - (bounds + 1) then Inl ValueOutOfBounds
                   else (case toTwos val 256 of Inl e \<Rightarrow> Inl e | Inr t \<Rightarrow> writeValue t))
          else if val < 0 \<or> val > mask bits then Inl ValueOutOfBounds
          else writeValue val)"

fun Coder_encode :: "abi_value \<Rightarrow> error + bytes" where
  "Coder_encode (AbiAddress v) = AddressCoder_encode v"
| "Coder_encode (AbiBytes32 v) = FixedBytesCoder_encode v"
| "Coder_encode (AbiUint bits v) = NumberCoder_encode bits False v"
| "Coder_encode (AbiInt bits v) = NumberCoder_encode bits True v"

text \<open>
  \<^verbatim>\<open>AbiCoder.defaultAbiCoder().encode(types, values)\<close> for static types: the words
  of the values in order; the first value that does not encode throws.
\<close>

fun AbiCoder_encode :: "abi_value list \<Rightarrow> error + bytes" where
  "AbiCoder_encode [] = Inr []"
| "AbiCoder_encode (v # vs) =
     (case Coder_encode v of
        Inl e \<Rightarrow> Inl e
      | Inr w \<Rightarrow> (case AbiCoder_encode vs of Inl e \<Rightarrow> Inl e | Inr ws \<Rightarrow> Inr (w @ ws)))"

text \<open>
  \<^verbatim>\<open>zeroPadValue(data, length)\<close> and the per-value step of
  \<^verbatim>\<open>solidityPacked\<close>: no padding between values, each value at its own width.
\<close>

definition zeroPadValue :: "bytes \<Rightarrow> nat \<Rightarrow> error + bytes" where
  "zeroPadValue bs n =
     (if n < length bs then Inl ValueOutOfBounds else Inr (replicate (n - length bs) 0 @ bs))"

fun pack :: "abi_value \<Rightarrow> error + bytes" where
  "pack (AbiAddress v) =
     (case getAddress v of Inl e \<Rightarrow> Inl e | Inr a \<Rightarrow> getBytes a)"
| "pack (AbiBytes32 v) =
     (case getBytes v of
        Inl e \<Rightarrow> Inl e
      | Inr d \<Rightarrow> if length d = 32 then Inr d else Inl InvalidValue)"
| "pack (AbiUint bits v) =
     (case getBigInt v of
        Inl e \<Rightarrow> Inl e
      | Inr val \<Rightarrow>
          (case toBeArray val of Inl e \<Rightarrow> Inl e | Inr bs \<Rightarrow> zeroPadValue bs (bits div 8)))"
| "pack (AbiInt bits v) =
     (case getBigInt v of
        Inl e \<Rightarrow> Inl e
      | Inr val \<Rightarrow>
          (case toTwos val bits of
             Inl e \<Rightarrow> Inl e
           | Inr t \<Rightarrow>
               (case toBeArray t of Inl e \<Rightarrow> Inl e | Inr bs \<Rightarrow> zeroPadValue bs (bits div 8))))"

fun solidityPacked :: "abi_value list \<Rightarrow> error + bytes" where
  "solidityPacked [] = Inr []"
| "solidityPacked (v # vs) =
     (case pack v of
        Inl e \<Rightarrow> Inl e
      | Inr w \<Rightarrow> (case solidityPacked vs of Inl e \<Rightarrow> Inl e | Inr ws \<Rightarrow> Inr (w @ ws)))"

section \<open>\<^verbatim>\<open>Uniswapv4PoolReader.js\<close>\<close>

definition POOL_STATE_SLOT :: int where
  "POOL_STATE_SLOT = 6"

definition ZeroAddress :: string where
  "ZeroAddress = ''0x0000000000000000000000000000000000000000''"

text \<open>\<^verbatim>\<open>calculatePoolStorageSlot(poolId)\<close>.\<close>

definition calculatePoolStorageSlot :: "string \<Rightarrow> error + bytes" where
  "calculatePoolStorageSlot poolId =
     (case AbiCoder_encode [AbiBytes32 poolId, AbiUint 256 (Number POOL_STATE_SLOT)] of
        Inl e \<Rightarrow> Inl e
      | Inr encodedSlot \<Rightarrow> Inr (keccak256 encodedSlot))"

text \<open>
  \<^verbatim>\<open>decodePoolState(rawData)\<close>. The argument is the word read from storage, and
  \<^verbatim>\<open>BigInt(rawData)\<close> is its unsigned value; the masks and shifts are those of the
  source, on unbounded integers. The source returns each field rendered by
  \<^verbatim>\<open>toString()\<close>; the record holds the BigInt that is rendered.
\<close>

record pool_state =
  sqrtPriceX96 :: int
  tick :: int
  protocolFee :: int
  lpFee :: int
  rawData :: "256 word"

definition decodePoolState :: "256 word \<Rightarrow> pool_state" where
  "decodePoolState raw =
     (let data = uint raw;
          sqrtPriceX96' = data AND (push_bit 160 1 - 1);
          tick' = drop_bit 160 data AND (push_bit 24 1 - 1);
          protocolFee' = drop_bit 184 data AND (push_bit 24 1 - 1);
          lpFee' = drop_bit 208 data AND (push_bit 24 1 - 1);
          maxTickValue = push_bit 23 1 - 1;
          signedTick = (if tick' > maxTickValue then tick' - push_bit 24 1 else tick')
      in \<lparr> sqrtPriceX96 = sqrtPriceX96', tick = signedTick,
           protocolFee = protocolFee', lpFee = lpFee', rawData = raw \<rparr>)"

text \<open>
  \<^verbatim>\<open>calculatePoolId(currency0, currency1, fee, tickSpacing, hookAddress)\<close>. The two
  currencies are ordered by comparing their lower-cased strings with JavaScript's
  \<^verbatim>\<open><\<close> on strings, the lexicographic order of the code units.
\<close>

definition sortTokens :: "string \<Rightarrow> string \<Rightarrow> string \<times> string" where
  "sortTokens currency0 currency1 =
     (if toLowerCase currency0 < toLowerCase currency1
      then (currency0, currency1)
      else (currency1, currency0))"

definition calculatePoolId ::
  "string \<Rightarrow> string \<Rightarrow> BigNumberish \<Rightarrow> BigNumberish \<Rightarrow> string \<Rightarrow> error + bytes" where
  "calculatePoolId currency0 currency1 fee tickSpacing hookAddress =
     (case sortTokens currency0 currency1 of
        (token0, token1) \<Rightarrow>
          (case AbiCoder_encode
                  [AbiAddress token0, AbiAddress token1, AbiUint 24 fee, AbiInt 24 tickSpacing,
                   AbiAddress hookAddress] of
             Inl e \<Rightarrow> Inl e
           | Inr encodedParams \<Rightarrow> Inr (keccak256 encodedParams)))"

section \<open>\<^verbatim>\<open>storageSlot.js\<close>\<close>

definition POOL_MANAGER_ADDRESS :: string where
  "POOL_MANAGER_ADDRESS = ''0x05E73354cFDd6745C338b50BcFDfA3Aa6fA03408''"

definition KNOWN_POOL_ID :: string where
  "KNOWN_POOL_ID = ''0x2b12523c52f9376439968e70e1f10ccc106ac80781bf40b0c8eeb2c19a22382e''"

definition EXPECTED_RAW_DATA :: "256 word" where
  "EXPECTED_RAW_DATA = 0x000000004e20000000fd435c000000000000000000085a6afa601db20218ff54"

text \<open>\<^verbatim>\<open>calculateStorageSlot(poolId, slotNumber)\<close>.\<close>

definition calculateStorageSlot :: "string \<Rightarrow> BigNumberish \<Rightarrow> error + bytes" where
  "calculateStorageSlot poolId slotNumber =
     (case AbiCoder_encode [AbiBytes32 poolId, AbiUint 256 slotNumber] of
        Inl e \<Rightarrow> Inl e
      | Inr encodedSlot \<Rightarrow> Inr (keccak256 encodedSlot))"

text \<open>
  The provider's \<^verbatim>\<open>getStorage(address, slot)\<close> is the one collaborator: a function
  from the contract address and the slot to the word stored there, or to the error it
  throws. \<^verbatim>\<open>readStorageSlot\<close> catches that error and returns \<^verbatim>\<open>null\<close>.
\<close>

type_synonym provider = "string \<Rightarrow> bytes \<Rightarrow> error + 256 word"

definition readStorageSlot :: "provider \<Rightarrow> bytes \<Rightarrow> 256 word option" where
  "readStorageSlot getStorage storageSlot =
     (case getStorage POOL_MANAGER_ADDRESS storageSlot of
        Inl e \<Rightarrow> None
      | Inr data \<Rightarrow> Some data)"

text \<open>
  The loop of \<^verbatim>\<open>findCorrectPoolsSlot\<close>, with the pool id, the expected word and the
  bounds of the range as arguments. Beside the result (\<^verbatim>\<open>null\<close> is \<open>None\<close>) it
  returns the slot numbers whose storage slot was read, in the order of the reads. The
  console output and the pause between two reads are left out.
\<close>

definition visit :: "int \<Rightarrow> int list \<times> 'a \<Rightarrow> int list \<times> 'a" where
  "visit n p = (n # fst p, snd p)"

function findCorrectPoolsSlot_loop ::
  "provider \<Rightarrow> string \<Rightarrow> 256 word \<Rightarrow> int \<Rightarrow> int \<Rightarrow> int list \<times> (error + int option)" where
  "findCorrectPoolsSlot_loop getStorage poolId expected hi slotNumber =
     (if slotNumber \<le> hi
      then (case calculateStorageSlot poolId (Number slotNumber) of
              Inl e \<Rightarrow> ([], Inl e)
            | Inr storageSlot \<Rightarrow>
                (case readStorageSlot getStorage storageSlot of
                   None \<Rightarrow>
                     visit slotNumber
                       (findCorrectPoolsSlot_loop getStorage poolId expected hi (slotNumber + 1))
                 | Some data \<Rightarrow>
                     if data = expected then ([slotNumber], Inr (Some slotNumber))
                     else visit slotNumber
                            (findCorrectPoolsSlot_loop getStorage poolId expected hi
                               (slotNumber + 1))))
      else ([], Inr None))"
  by pat_completeness auto
termination
  by (relation "measure (\<lambda>(getStorage, poolId, expected, hi, slotNumber). nat (hi + 1 - slotNumber))")
     auto

definition findCorrectPoolsSlot :: "provider \<Rightarrow> int list \<times> (error + int option)" where
  "findCorrectPoolsSlot getStorage =
     findCorrectPoolsSlot_loop getStorage KNOWN_POOL_ID EXPECTED_RAW_DATA 20 0"

section \<open>\<^verbatim>\<open>debug.js\<close>\<close>

definition poolId :: string where
  "poolId = ''0x2b12523c52f9376439968e70e1f10ccc106ac80781bf40b0c8eeb2c19a22382e''"

definition encodedSlot :: "error + bytes" where
  "encodedSlot = AbiCoder_encode [AbiBytes32 poolId, AbiUint 256 (Number POOL_STATE_SLOT)]"

definition calculatedSlot :: "error + bytes" where
  "calculatedSlot = (case encodedSlot of Inl e \<Rightarrow> Inl e | Inr b \<Rightarrow> Inr (keccak256 b))"

definition manualEncoded :: "error + bytes" where
  "manualEncoded = solidityPacked [AbiBytes32 poolId, AbiUint 256 (Number POOL_STATE_SLOT)]"

definition manualHash :: "error + bytes" where
  "manualHash = (case manualEncoded of Inl e \<Rightarrow> Inl e | Inr b \<Rightarrow> Inr (keccak256 b))"

section \<open>Notions used to state the properties\<close>

text \<open>
  The 32-byte big-endian form of an unsigned value below \<open>2 ^ 256\<close>, byte by byte: the
  byte at position \<open>i\<close> from the left is the digit of weight \<open>256 ^ (31 - i)\<close>. Small
  values therefore start with zero bytes.
\<close>

definition be32 :: "int \<Rightarrow> bytes" where
  "be32 v = map (\<lambda>i. of_int (v div 256 ^ (31 - i))) [0..<32]"

text \<open>A provider whose every read throws, as when the endpoint cannot be reached.\<close>

definition failing_provider :: provider where
  "failing_provider address slot = Inl ReaderFailure"

text \<open>A provider that returns the zero word for every slot.\<close>

definition zero_provider :: provider where
  "zero_provider address slot = Inr 0"

text \<open>A provider that returns the same word \<open>w\<close> for every slot.\<close>

definition constant_provider :: "256 word \<Rightarrow> provider" where
  "constant_provider w address slot = Inr w"

text \<open>
  Index \<open>i\<close> matches when the provider returns the expected word at the slot derived
  from the key and \<open>i\<close>.
\<close>

definition matches :: "provider \<Rightarrow> bytes \<Rightarrow> 256 word \<Rightarrow> int \<Rightarrow> bool" where
  "matches getStorage key expected i =
     (getStorage POOL_MANAGER_ADDRESS (keccak256 (key @ be32 i)) = Inr expected)"

text \<open>A provider in which every failed read is replaced by the word \<open>w\<close>.\<close>

definition recovered :: "256 word \<Rightarrow> provider \<Rightarrow> provider" where
  "recovered w getStorage address slot =
     (case getStorage address slot of Inl e \<Rightarrow> Inr w | Inr d \<Rightarrow> Inr d)"

text \<open>An address in its usual notation, \<^verbatim>\<open>0x\<close> and 40 hexadecimal digits.\<close>

definition prefixed_address :: "string \<Rightarrow> bool" where
  "prefixed_address s = (length s = 42 \<and> take 2 s = ''0x'' \<and> list_all is_hex (drop 2 s))"

section \<open>The packed word decoder\<close>

text \<open>
  Every mask of \<^const>\<open>decodePoolState\<close> is a power of two minus one, so each field is a
  quotient and remainder of the unsigned value of the word.
\<close>

lemma push_bit_minus_one_mask: "push_bit n (1::int) - 1 = mask n"
  by (simp add: mask_eq_exp_minus_1)

lemma shifted_field_eq:
  "drop_bit n (uint (w::256 word)) AND (push_bit 24 1 - 1) = uint w div 2 ^ n mod 2 ^ 24"
  by (simp add: push_bit_minus_one_mask take_bit_eq_mask [symmetric] take_bit_eq_mod
      drop_bit_eq_div del: push_bit_of_1)

lemma sqrtPriceX96_eq: "sqrtPriceX96 (decodePoolState w) = uint w mod 2 ^ 160"
  by (simp add: decodePoolState_def Let_def push_bit_minus_one_mask
      take_bit_eq_mask [symmetric] take_bit_eq_mod del: push_bit_of_1)

lemma tick_eq:
  "tick (decodePoolState w) =
     (let v = uint w div 2 ^ 160 mod 2 ^ 24 in if 2 ^ 23 \<le> v then v - 2 ^ 24 else v)"
  unfolding decodePoolState_def Let_def shifted_field_eq by simp

lemma protocolFee_eq: "protocolFee (decodePoolState w) = uint w div 2 ^ 184 mod 2 ^ 24"
  unfolding decodePoolState_def Let_def shifted_field_eq by simp

lemma lpFee_eq: "lpFee (decodePoolState w) = uint w div 2 ^ 208 mod 2 ^ 24"
  unfolding decodePoolState_def Let_def shifted_field_eq by simp

text \<open>Bit 23 of a 24-bit value is set exactly when the value is at least \<open>2 ^ 23\<close>.\<close>

lemma bit_23_iff:
  assumes "0 \<le> v" and "v < 2 ^ 24"
  shows "bit (v::int) 23 \<longleftrightarrow> 2 ^ 23 \<le> v"
proof -
  define r where "r = take_bit 23 v"
  have e: "take_bit (Suc 23) v = v"
    using assms by (simp add: take_bit_int_eq_self)
  have "take_bit (Suc 23) v = 2 ^ 23 * of_bool (bit v 23) + take_bit 23 v"
    by (rule take_bit_Suc_from_most)
  with e have s: "v = 8388608 * of_bool (bit v 23) + r"
    by (simp add: r_def)
  have l: "0 \<le> r"
    by (simp add: r_def)
  have "take_bit 23 v < 2 ^ 23"
    by (rule take_bit_int_less_exp)
  then have u: "r < 8388608"
    by (simp add: r_def)
  show ?thesis
  proof (cases "bit v 23")
    case True
    with s have "v = 8388608 + r" by simp
    with l True show ?thesis by simp
  next
    case False
    with s have "v = r" by simp
    with u False show ?thesis by simp
  qed
qed

lemma tick_range:
  "- (2 ^ 23) \<le> tick (decodePoolState w) \<and> tick (decodePoolState w) \<le> 2 ^ 23 - 1"
proof -
  define v where "v = uint w div 2 ^ 160 mod 2 ^ 24"
  have v: "0 \<le> v" "v < 2 ^ 24"
    by (simp_all add: v_def)
  have "tick (decodePoolState w) = (if 2 ^ 23 \<le> v then v - 2 ^ 24 else v)"
    by (simp add: tick_eq v_def Let_def)
  then show ?thesis
    using v by auto
qed

text \<open>A field whose 24 bits are all set, whatever the rest of the word holds.\<close>

lemma take_bit_or_mask: "take_bit n (a::int) OR mask n = mask n"
  by (rule bit_eqI) (auto simp add: bit_simps)

lemma ones_at_160:
  "take_bit 24 (drop_bit 160 (uint (push_bit 160 0xFFFFFF :: 256 word))) = mask 24"
  by (simp add: mask_eq_exp_minus_1)

lemma ones_at_184:
  "take_bit 24 (drop_bit 184 (uint (push_bit 184 0xFFFFFF :: 256 word))) = mask 24"
  by (simp add: mask_eq_exp_minus_1)

lemma field_of_or:
  "uint ((w::256 word) OR push_bit n 0xFFFFFF) div 2 ^ n mod 2 ^ 24 =
     take_bit 24 (drop_bit n (uint w)) OR
     take_bit 24 (drop_bit n (uint (push_bit n 0xFFFFFF :: 256 word)))"
proof -
  have e: "uint x div 2 ^ n mod 2 ^ 24 = take_bit 24 (drop_bit n (uint x))" for x :: "256 word"
    by (simp only: take_bit_eq_mod drop_bit_eq_div)
  show ?thesis
    unfolding e by (simp add: uint_or)
qed

text \<open>
  C2. For every 256-bit word, the decoded tick is the 24 bits at offset 160 read as an
  unsigned value \<open>v\<close>, less \<open>2 ^ 24\<close> when bit 23 of \<open>v\<close> is set and \<open>v\<close> itself
  otherwise; it lies between \<open>- 2 ^ 23\<close> and \<open>2 ^ 23 - 1\<close>. When the 24 bits are all
  ones the signed field (the tick) is \<open>- 1\<close>, and the same pattern in an unsigned field
  (the protocol fee) is 16777215.
\<close>

theorem decodePoolState_tick_twos_complement:
  "tick (decodePoolState w) =
     (let v = uint w div 2 ^ 160 mod 2 ^ 24 in if bit v 23 then v - 2 ^ 24 else v)
   \<and> - (2 ^ 23) \<le> tick (decodePoolState w) \<and> tick (decodePoolState w) \<le> 2 ^ 23 - 1
   \<and> tick (decodePoolState (w OR push_bit 160 0xFFFFFF)) = - 1
   \<and> protocolFee (decodePoolState (w OR push_bit 184 0xFFFFFF)) = 16777215"
proof -
  define v where "v = uint w div 2 ^ 160 mod 2 ^ 24"
  have v: "0 \<le> v" "v < 2 ^ 24"
    by (simp_all add: v_def)
  have t: "tick (decodePoolState w) = (if bit v 23 then v - 2 ^ 24 else v)"
    using bit_23_iff [OF v] by (simp add: tick_eq v_def Let_def)
  have o1: "uint (w OR push_bit 160 0xFFFFFF) div 2 ^ 160 mod 2 ^ 24 = 16777215"
    unfolding field_of_or ones_at_160 take_bit_or_mask by (simp add: mask_eq_exp_minus_1)
  have o2: "uint (w OR push_bit 184 0xFFFFFF) div 2 ^ 184 mod 2 ^ 24 = 16777215"
    unfolding field_of_or ones_at_184 take_bit_or_mask by (simp add: mask_eq_exp_minus_1)
  have s: "tick (decodePoolState (w OR push_bit 160 0xFFFFFF)) = - 1"
    unfolding tick_eq o1 by simp
  have u: "protocolFee (decodePoolState (w OR push_bit 184 0xFFFFFF)) = 16777215"
    unfolding protocolFee_eq o2 by simp
  from t tick_range [of w] s u show ?thesis
    by (simp add: v_def Let_def)
qed

theorem decodePoolState_tick_twos_complement_witness:
  "tick (decodePoolState 0) =
     (let v = uint (0::256 word) div 2 ^ 160 mod 2 ^ 24 in if bit v 23 then v - 2 ^ 24 else v)
   \<and> - (2 ^ 23) \<le> tick (decodePoolState 0) \<and> tick (decodePoolState 0) \<le> 2 ^ 23 - 1
   \<and> tick (decodePoolState (0 OR push_bit 160 0xFFFFFF)) = - 1
   \<and> protocolFee (decodePoolState (0 OR push_bit 184 0xFFFFFF)) = 16777215"
  by (rule decodePoolState_tick_twos_complement [of 0])

text \<open>
  C7. The word that the scripts expect at the pool's slot decodes to the price
  \<open>0x085a6afa601db20218ff54\<close> (its low 160 bits) and to the tick \<open>- 179364\<close>, the sign
  extension of \<open>0xfd435c\<close>.
\<close>

theorem decodePoolState_expected_word:
  "sqrtPriceX96 (decodePoolState EXPECTED_RAW_DATA) = 0x085a6afa601db20218ff54 \<and>
   sqrtPriceX96 (decodePoolState EXPECTED_RAW_DATA) = uint EXPECTED_RAW_DATA mod 2 ^ 160 \<and>
   tick (decodePoolState EXPECTED_RAW_DATA) = - 179364 \<and>
   tick (decodePoolState EXPECTED_RAW_DATA) = 0xfd435c - 2 ^ 24"
  by (simp add: decodePoolState_def EXPECTED_RAW_DATA_def Let_def)

text \<open>
  C9. For every 256-bit word the decoded price lies in \<open>[0, 2 ^ 160)\<close>, the tick in
  \<open>[- 2 ^ 23, 2 ^ 23 - 1]\<close>, and the protocol fee and the LP fee in \<open>[0, 2 ^ 24)\<close>: the
  two fees are never negative.
\<close>

theorem decodePoolState_field_ranges:
  "0 \<le> sqrtPriceX96 (decodePoolState w) \<and> sqrtPriceX96 (decodePoolState w) < 2 ^ 160
   \<and> - (2 ^ 23) \<le> tick (decodePoolState w) \<and> tick (decodePoolState w) \<le> 2 ^ 23 - 1
   \<and> 0 \<le> protocolFee (decodePoolState w) \<and> protocolFee (decodePoolState w) < 2 ^ 24
   \<and> 0 \<le> lpFee (decodePoolState w) \<and> lpFee (decodePoolState w) < 2 ^ 24"
proof -
  have a: "0 \<le> sqrtPriceX96 (decodePoolState w) \<and> sqrtPriceX96 (decodePoolState w) < 2 ^ 160"
    unfolding sqrtPriceX96_eq by simp
  have c: "0 \<le> protocolFee (decodePoolState w) \<and> protocolFee (decodePoolState w) < 2 ^ 24"
    unfolding protocolFee_eq by simp
  have d: "0 \<le> lpFee (decodePoolState w) \<and> lpFee (decodePoolState w) < 2 ^ 24"
    unfolding lpFee_eq by simp
  from a tick_range [of w] c d show ?thesis
    by blast
qed

theorem decodePoolState_field_ranges_witness:
  "0 \<le> sqrtPriceX96 (decodePoolState (- 1)) \<and> sqrtPriceX96 (decodePoolState (- 1)) < 2 ^ 160
   \<and> - (2 ^ 23) \<le> tick (decodePoolState (- 1)) \<and> tick (decodePoolState (- 1)) \<le> 2 ^ 23 - 1
   \<and> 0 \<le> protocolFee (decodePoolState (- 1)) \<and> protocolFee (decodePoolState (- 1)) < 2 ^ 24
   \<and> 0 \<le> lpFee (decodePoolState (- 1)) \<and> lpFee (decodePoolState (- 1)) < 2 ^ 24"
  by (rule decodePoolState_field_ranges [of "- 1"])

lemma field_below_232:
  assumes "take_bit 232 (w1::256 word) = take_bit 232 w2" and "n + 24 \<le> 232"
  shows "uint w1 div 2 ^ n mod 2 ^ 24 = uint w2 div 2 ^ n mod 2 ^ 24"
proof -
  have "take_bit 24 (drop_bit n (uint w)) = take_bit 24 (drop_bit n (uint (take_bit 232 w)))"
    for w :: "256 word"
    using assms(2) by (simp add: unsigned_take_bit_eq take_bit_drop_bit min_def)
  from this [of w1] this [of w2] assms(1) show ?thesis
    by (simp add: take_bit_eq_mod drop_bit_eq_div)
qed

text \<open>
  C10. Two words that agree on bits 0 to 231 decode to the same price, tick, protocol fee
  and LP fee: bits 232 to 255 reach no field.
\<close>

theorem decodePoolState_ignores_top_bits:
  assumes "take_bit 232 (w1::256 word) = take_bit 232 w2"
  shows "sqrtPriceX96 (decodePoolState w1) = sqrtPriceX96 (decodePoolState w2) \<and>
         tick (decodePoolState w1) = tick (decodePoolState w2) \<and>
         protocolFee (decodePoolState w1) = protocolFee (decodePoolState w2) \<and>
         lpFee (decodePoolState w1) = lpFee (decodePoolState w2)"
proof -
  have "take_bit 160 (uint w) = take_bit 160 (uint (take_bit 232 w))" for w :: "256 word"
    by (simp add: unsigned_take_bit_eq)
  from this [of w1] this [of w2] assms
  have s: "sqrtPriceX96 (decodePoolState w1) = sqrtPriceX96 (decodePoolState w2)"
    by (simp add: sqrtPriceX96_eq take_bit_eq_mod)
  have t: "tick (decodePoolState w1) = tick (decodePoolState w2)"
    unfolding tick_eq using field_below_232 [OF assms, of 160] by simp
  have p: "protocolFee (decodePoolState w1) = protocolFee (decodePoolState w2)"
    unfolding protocolFee_eq using field_below_232 [OF assms, of 184] by simp
  have l: "lpFee (decodePoolState w1) = lpFee (decodePoolState w2)"
    unfolding lpFee_eq using field_below_232 [OF assms, of 208] by simp
  from s t p l show ?thesis
    by blast
qed

theorem decodePoolState_ignores_top_bits_witness:
  "take_bit 232 EXPECTED_RAW_DATA = take_bit 232 (EXPECTED_RAW_DATA OR push_bit 232 0xABCDEF) \<and>
   EXPECTED_RAW_DATA \<noteq> (EXPECTED_RAW_DATA OR push_bit 232 0xABCDEF) \<and>
   sqrtPriceX96 (decodePoolState EXPECTED_RAW_DATA) =
     sqrtPriceX96 (decodePoolState (EXPECTED_RAW_DATA OR push_bit 232 0xABCDEF)) \<and>
   tick (decodePoolState EXPECTED_RAW_DATA) =
     tick (decodePoolState (EXPECTED_RAW_DATA OR push_bit 232 0xABCDEF)) \<and>
   protocolFee (decodePoolState EXPECTED_RAW_DATA) =
     protocolFee (decodePoolState (EXPECTED_RAW_DATA OR push_bit 232 0xABCDEF)) \<and>
   lpFee (decodePoolState EXPECTED_RAW_DATA) =
     lpFee (decodePoolState (EXPECTED_RAW_DATA OR push_bit 232 0xABCDEF))"
proof -
  have h: "take_bit 232 EXPECTED_RAW_DATA =
      take_bit 232 (EXPECTED_RAW_DATA OR push_bit 232 0xABCDEF)"
    by (simp add: EXPECTED_RAW_DATA_def)
  have d: "EXPECTED_RAW_DATA \<noteq> (EXPECTED_RAW_DATA OR push_bit 232 0xABCDEF)"
    by (simp add: EXPECTED_RAW_DATA_def)
  from h d decodePoolState_ignores_top_bits [OF h] show ?thesis
    by blast
qed

section \<open>The structured encoder and the slot derivation\<close>

subsection \<open>One 32-byte word per value\<close>

lemma be_bytes_0: "be_bytes 0 = []"
  by (simp add: be_bytes.simps)

lemma be_bytes_pos: "0 < n \<Longrightarrow> be_bytes n = be_bytes (n div 256) @ [of_nat n]"
  by (subst be_bytes.simps) simp

lemma length_be_bytes: "n < 256 ^ k \<Longrightarrow> length (be_bytes n) \<le> k"
proof (induction k arbitrary: n)
  case 0
  then show ?case by (simp add: be_bytes_0)
next
  case (Suc k)
  show ?case
  proof (cases "n = 0")
    case True
    then show ?thesis by (simp add: be_bytes_0)
  next
    case False
    from Suc.prems have "n div 256 < 256 ^ k"
      by (simp add: less_mult_imp_div_less mult.commute)
    from Suc.IH [OF this] False show ?thesis
      by (simp add: be_bytes_pos)
  qed
qed

lemma digits_Suc:
  "map (\<lambda>i. (of_nat (n div 256 ^ (Suc k - 1 - i)) :: byte)) [0..<Suc k] =
   map (\<lambda>i. of_nat (n div 256 div 256 ^ (k - 1 - i))) [0..<k] @ [of_nat n]"
proof -
  have "n div 256 ^ (k - i) = n div 256 div 256 ^ (k - 1 - i)" if "i < k" for i
  proof -
    from that have "k - i = Suc (k - 1 - i)" by simp
    then show ?thesis by (simp add: div_mult2_eq)
  qed
  then show ?thesis by simp
qed

lemma be_bytes_padded:
  "n < 256 ^ k \<Longrightarrow>
   replicate (k - length (be_bytes n)) 0 @ be_bytes n =
     map (\<lambda>i. of_nat (n div 256 ^ (k - 1 - i))) [0..<k]"
proof (induction k arbitrary: n)
  case 0
  then show ?case by (simp add: be_bytes_0)
next
  case (Suc k)
  show ?case
  proof (cases "n = 0")
    case True
    have "map (\<lambda>i. (0::byte)) [0..<Suc k] = replicate (Suc k) 0"
      by (simp only: map_replicate_const length_upt) simp
    with True show ?thesis
      by (simp add: be_bytes_0 del: upt_Suc replicate_Suc)
  next
    case False
    from Suc.prems have d: "n div 256 < 256 ^ k"
      by (simp add: less_mult_imp_div_less mult.commute)
    have l: "length (be_bytes (n div 256)) \<le> k"
      by (rule length_be_bytes [OF d])
    have "replicate (Suc k - length (be_bytes n)) 0 @ be_bytes n =
        (replicate (k - length (be_bytes (n div 256))) 0 @ be_bytes (n div 256)) @ [of_nat n]"
      using False by (simp add: be_bytes_pos)
    also have "\<dots> = map (\<lambda>i. of_nat (n div 256 div 256 ^ (k - 1 - i))) [0..<k] @ [of_nat n]"
      by (simp only: Suc.IH [OF d])
    finally show ?thesis
      by (simp only: digits_Suc)
  qed
qed

lemma writeValue_be32:
  assumes "0 \<le> v" and "v < 2 ^ 256"
  shows "writeValue v = Inr (be32 v)"
proof -
  define n where "n = nat v"
  have v: "v = int n"
    using assms(1) by (simp add: n_def)
  have b: "n < 256 ^ 32"
    using assms(2) by (simp add: n_def nat_less_iff)
  have "of_int (int n div 256 ^ j) = (of_nat (n div 256 ^ j) :: byte)" for j
  proof -
    have "int n div 256 ^ j = int (n div 256 ^ j)"
      by (simp add: zdiv_int)
    then show ?thesis
      by (simp only: of_int_of_nat_eq)
  qed
  then have e: "be32 v = map (\<lambda>i. of_nat (n div 256 ^ (32 - 1 - i))) [0..<32]"
    by (simp add: be32_def v)
  from length_be_bytes [OF b] be_bytes_padded [OF b] show ?thesis
    unfolding e using assms(1) by (simp add: writeValue_def toBeArray_def n_def)
qed

lemma length_be32: "length (be32 v) = 32"
  by (simp add: be32_def)

subsection \<open>The digest has 32 bytes\<close>

lemma length_keccak_round: "length (keccak_round a r) = 25"
  by (simp add: keccak_round_def iota_def chi_def)

lemma length_keccak_f: "length (keccak_f a) = 25"
proof -
  have "[0..<Suc 23] = [0..<23] @ [23]"
    by (rule upt_Suc_append) simp
  then have "[0..<24] = [0..<23] @ [23::nat]"
    by simp
  then have "keccak_f a = keccak_round (foldl keccak_round a [0..<23]) 23"
    by (simp only: keccak_f_def foldl_append foldl.simps)
  then show ?thesis
    by (simp only: length_keccak_round)
qed

lemma length_absorb: "length a = 25 \<Longrightarrow> length (absorb n a m) = 25"
  by (induction n arbitrary: a m) (simp_all add: absorb_block_def length_keccak_f)

lemma length_concat_lanes: "length (concat (map bytes_of_lane ls)) = 8 * length ls"
  by (induction ls) (simp_all add: bytes_of_lane_def)

lemma length_keccak256: "length (keccak256 m) = 32"
  by (simp add: keccak256_def Let_def length_concat_lanes length_absorb)

lemma FixedBytesCoder_encode_ok:
  "getBytes s = Inr key \<Longrightarrow> length key = 32 \<Longrightarrow> FixedBytesCoder_encode s = Inr key"
  by (simp add: FixedBytesCoder_encode_def)

lemma uint256_encode_ok:
  assumes "getBigInt x = Inr n" and "0 \<le> n" and "n < 2 ^ 256"
  shows "NumberCoder_encode 256 False x = Inr (be32 n)"
proof -
  have "\<not> n > mask 256"
    using assms(3) by (simp add: mask_eq_exp_minus_1)
  with assms(1,2) writeValue_be32 [OF assms(2,3)] show ?thesis
    by (simp add: NumberCoder_encode_def)
qed

lemma slot_encoding:
  assumes "getBytes s = Inr key" and "length key = 32"
    and "getBigInt x = Inr n" and "0 \<le> n" and "n < 2 ^ 256"
  shows "AbiCoder_encode [AbiBytes32 s, AbiUint 256 x] = Inr (key @ be32 n)"
  using FixedBytesCoder_encode_ok [OF assms(1,2)] uint256_encode_ok [OF assms(3,4,5)]
  by simp

lemma slot_packing:
  assumes "getBytes s = Inr key" and "length key = 32"
    and "getBigInt x = Inr n" and "0 \<le> n" and "n < 2 ^ 256"
  shows "solidityPacked [AbiBytes32 s, AbiUint 256 x] = Inr (key @ be32 n)"
proof -
  have "writeValue n = Inr (be32 n)"
    by (rule writeValue_be32 [OF assms(4,5)])
  then have "(case toBeArray n of Inl e \<Rightarrow> Inl e | Inr bs \<Rightarrow> zeroPadValue bs (256 div 8)) =
      Inr (be32 n)"
    by (auto simp add: writeValue_def zeroPadValue_def split: sum.splits if_splits)
  with assms(1,2,3) show ?thesis
    by simp
qed

lemma calculateStorageSlot_eq:
  assumes "getBytes s = Inr key" and "length key = 32"
    and "getBigInt x = Inr n" and "0 \<le> n" and "n < 2 ^ 256"
  shows "calculateStorageSlot s x = Inr (keccak256 (key @ be32 n))"
  unfolding calculateStorageSlot_def slot_encoding [OF assms] by simp

lemma getBigInt_small: "0 \<le> n \<Longrightarrow> n \<le> maxValue \<Longrightarrow> getBigInt (Number n) = Inr n"
  by (simp add: maxValue_def)

lemma maxValue_uint256: "n \<le> maxValue \<Longrightarrow> n < 2 ^ 256"
  by (simp add: maxValue_def)

lemma known_pool_id_bytes:
  "getBytes KNOWN_POOL_ID =
     Inr [0x2b, 0x12, 0x52, 0x3c, 0x52, 0xf9, 0x37, 0x64, 0x39, 0x96, 0x8e, 0x70, 0xe1, 0xf1,
          0x0c, 0xcc, 0x10, 0x6a, 0xc8, 0x07, 0x81, 0xbf, 0x40, 0xb0, 0xc8, 0xee, 0xb2, 0xc1,
          0x9a, 0x22, 0x38, 0x2e]"
  by (simp add: KNOWN_POOL_ID_def hexval_def)

lemma known_pool_id_length:
  "length [0x2b, 0x12, 0x52, 0x3c, 0x52, 0xf9, 0x37, 0x64, 0x39, 0x96, 0x8e, 0x70, 0xe1, 0xf1,
          0x0c, 0xcc, 0x10, 0x6a, 0xc8, 0x07, 0x81, 0xbf, 0x40, 0xb0, 0xc8, 0xee, 0xb2, 0xc1,
          0x9a, 0x22, 0x38, (0x2e::byte)] = 32"
  by simp

text \<open>
  C1. For every pool id that denotes 32 bytes and every slot number the encoder accepts as
  a \<^verbatim>\<open>uint256\<close>, the derived slot is the Keccak-256 hash of 64 bytes: the 32 bytes
  of the key followed by the 32-byte big-endian, zero-padded slot number.
  \<^const>\<open>calculateStorageSlot\<close> takes the slot number as an argument,
  \<^const>\<open>calculatePoolStorageSlot\<close> fixes it to 6.
\<close>

theorem calculateStorageSlot_keccak_of_key_and_index:
  assumes "getBytes s = Inr key" and "length key = 32"
    and "getBigInt x = Inr n" and "0 \<le> n" and "n < 2 ^ 256"
  shows "calculateStorageSlot s x = Inr (keccak256 (key @ be32 n)) \<and>
         calculatePoolStorageSlot s = Inr (keccak256 (key @ be32 6)) \<and>
         length (key @ be32 n) = 64"
proof -
  have "getBigInt (Number POOL_STATE_SLOT) = Inr 6"
    by (simp add: POOL_STATE_SLOT_def maxValue_def)
  from slot_encoding [OF assms(1,2) this]
  have "calculatePoolStorageSlot s = Inr (keccak256 (key @ be32 6))"
    unfolding calculatePoolStorageSlot_def by simp
  with calculateStorageSlot_eq [OF assms] assms(2) show ?thesis
    by (simp add: length_be32)
qed

theorem calculateStorageSlot_keccak_of_key_and_index_witness:
  "calculateStorageSlot KNOWN_POOL_ID (Number 6) =
     Inr (keccak256 ([0x2b, 0x12, 0x52, 0x3c, 0x52, 0xf9, 0x37, 0x64, 0x39, 0x96, 0x8e, 0x70, 0xe1, 0xf1,
        0x0c, 0xcc, 0x10, 0x6a, 0xc8, 0x07, 0x81, 0xbf, 0x40, 0xb0, 0xc8, 0xee, 0xb2, 0xc1,
        0x9a, 0x22, 0x38, 0x2e] @ be32 6)) \<and>
   calculatePoolStorageSlot KNOWN_POOL_ID =
     Inr (keccak256 ([0x2b, 0x12, 0x52, 0x3c, 0x52, 0xf9, 0x37, 0x64, 0x39, 0x96, 0x8e, 0x70, 0xe1, 0xf1,
        0x0c, 0xcc, 0x10, 0x6a, 0xc8, 0x07, 0x81, 0xbf, 0x40, 0xb0, 0xc8, 0xee, 0xb2, 0xc1,
        0x9a, 0x22, 0x38, 0x2e] @ be32 6)) \<and>
   length ([0x2b, 0x12, 0x52, 0x3c, 0x52, 0xf9, 0x37, 0x64, 0x39, 0x96, 0x8e, 0x70, 0xe1, 0xf1,
        0x0c, 0xcc, 0x10, 0x6a, 0xc8, 0x07, 0x81, 0xbf, 0x40, 0xb0, 0xc8, 0xee, 0xb2, 0xc1,
        0x9a, 0x22, 0x38, 0x2e] @ be32 6) = 64"
proof -
  have b: "getBigInt (Number 6) = Inr 6"
    by (simp add: maxValue_def)
  have r: "(0::int) \<le> 6" "(6::int) < 2 ^ 256"
    by simp_all
  show ?thesis
    by (rule calculateStorageSlot_keccak_of_key_and_index
        [OF known_pool_id_bytes known_pool_id_length b r])
qed

text \<open>
  C8. For a pool id that denotes 32 bytes and a slot number that fits a \<^verbatim>\<open>uint256\<close>,
  the packed encoding of the pair is the same 64 bytes as its ABI encoding, so the two
  hashes of \<^verbatim>\<open>debug.js\<close> are the same 32-byte slot; this holds for the pool id and
  the slot number 6 of the script.
\<close>

theorem abi_and_packed_encodings_agree:
  assumes "getBytes s = Inr key" and "length key = 32"
    and "getBigInt x = Inr n" and "0 \<le> n" and "n < 2 ^ 256"
  shows "solidityPacked [AbiBytes32 s, AbiUint 256 x] = AbiCoder_encode [AbiBytes32 s, AbiUint 256 x]
       \<and> AbiCoder_encode [AbiBytes32 s, AbiUint 256 x] = Inr (key @ be32 n)
       \<and> length (keccak256 (key @ be32 n)) = 32"
  unfolding slot_encoding [OF assms] slot_packing [OF assms] by (simp add: length_keccak256)

theorem abi_and_packed_encodings_agree_witness:
  "calculatedSlot = manualHash \<and>
   manualHash = calculatePoolStorageSlot poolId \<and>
   manualHash =
     Inr (keccak256
       ([0x2b, 0x12, 0x52, 0x3c, 0x52, 0xf9, 0x37, 0x64, 0x39, 0x96, 0x8e, 0x70, 0xe1, 0xf1,
         0x0c, 0xcc, 0x10, 0x6a, 0xc8, 0x07, 0x81, 0xbf, 0x40, 0xb0, 0xc8, 0xee, 0xb2, 0xc1,
         0x9a, 0x22, 0x38, 0x2e] @ be32 6))"
proof -
  have p: "poolId = KNOWN_POOL_ID"
    by (simp add: poolId_def KNOWN_POOL_ID_def)
  have b: "getBigInt (Number POOL_STATE_SLOT) = Inr 6"
    by (simp add: POOL_STATE_SLOT_def maxValue_def)
  have r: "(0::int) \<le> 6" "(6::int) < 2 ^ 256"
    by simp_all
  from abi_and_packed_encodings_agree [OF known_pool_id_bytes known_pool_id_length b r]
  show ?thesis
    unfolding calculatedSlot_def manualHash_def encodedSlot_def manualEncoded_def
      calculatePoolStorageSlot_def p
    by simp
qed

section \<open>The slot prober\<close>

declare findCorrectPoolsSlot_loop.simps [simp del]

lemma loop_done:
  "hi < lo \<Longrightarrow> findCorrectPoolsSlot_loop g s e hi lo = ([], Inr None)"
  by (subst findCorrectPoolsSlot_loop.simps) simp

lemma loop_hit:
  assumes "lo \<le> hi" and "calculateStorageSlot s (Number lo) = Inr sl"
    and "g POOL_MANAGER_ADDRESS sl = Inr e"
  shows "findCorrectPoolsSlot_loop g s e hi lo = ([lo], Inr (Some lo))"
  using assms by (subst findCorrectPoolsSlot_loop.simps) (simp add: readStorageSlot_def)

lemma loop_miss:
  assumes "lo \<le> hi" and "calculateStorageSlot s (Number lo) = Inr sl"
    and "g POOL_MANAGER_ADDRESS sl \<noteq> Inr e"
  shows "findCorrectPoolsSlot_loop g s e hi lo =
           visit lo (findCorrectPoolsSlot_loop g s e hi (lo + 1))"
  using assms
  by (subst findCorrectPoolsSlot_loop.simps)
     (auto simp add: readStorageSlot_def split: sum.splits)

lemma probe_outcome:
  assumes k: "getBytes s = Inr key" "length key = 32" and hi: "hi \<le> maxValue"
  shows "0 \<le> lo \<Longrightarrow>
    (\<exists>j. lo \<le> j \<and> j \<le> hi \<and> matches g key e j \<and>
          (\<forall>i. lo \<le> i \<and> i < j \<longrightarrow> \<not> matches g key e i) \<and>
          findCorrectPoolsSlot_loop g s e hi lo = ([lo..j], Inr (Some j)))
    \<or> ((\<forall>i. lo \<le> i \<and> i \<le> hi \<longrightarrow> \<not> matches g key e i) \<and>
        findCorrectPoolsSlot_loop g s e hi lo = ([lo..hi], Inr None))"
proof (induction "nat (hi + 1 - lo)" arbitrary: lo)
  case 0
  then have "hi < lo" by simp
  then show ?case by (auto simp add: loop_done)
next
  case (Suc n)
  then have le: "lo \<le> hi" by simp
  with hi have lm: "lo \<le> maxValue" by simp
  from getBigInt_small [OF Suc.prems lm] maxValue_uint256 [OF lm]
  have "getBigInt (Number lo) = Inr lo" "lo < 2 ^ 256" .
  from calculateStorageSlot_eq [OF k this(1) Suc.prems this(2)]
  have sl: "calculateStorageSlot s (Number lo) = Inr (keccak256 (key @ be32 lo))" .
  show ?case
  proof (cases "matches g key e lo")
    case True
    then have "findCorrectPoolsSlot_loop g s e hi lo = ([lo], Inr (Some lo))"
      by (simp add: matches_def loop_hit [OF le sl])
    with True le show ?thesis by auto
  next
    case False
    then have step: "findCorrectPoolsSlot_loop g s e hi lo =
        visit lo (findCorrectPoolsSlot_loop g s e hi (lo + 1))"
      by (simp add: matches_def loop_miss [OF le sl])
    from Suc.hyps(2) have n: "n = nat (hi + 1 - (lo + 1))" by simp
    from Suc.prems have p: "0 \<le> lo + 1" by simp
    from Suc.hyps(1) [OF n p] show ?thesis
    proof (elim disjE exE conjE)
      fix j
      assume j: "lo + 1 \<le> j" "j \<le> hi" "matches g key e j"
        and m: "\<forall>i. lo + 1 \<le> i \<and> i < j \<longrightarrow> \<not> matches g key e i"
        and r: "findCorrectPoolsSlot_loop g s e hi (lo + 1) = ([lo + 1..j], Inr (Some j))"
      from j(1) have "[lo..j] = lo # [lo + 1..j]"
        by (simp add: upto_rec1)
      with step r have "findCorrectPoolsSlot_loop g s e hi lo = ([lo..j], Inr (Some j))"
        by (simp add: visit_def)
      moreover have "\<forall>i. lo \<le> i \<and> i < j \<longrightarrow> \<not> matches g key e i"
      proof (intro allI impI)
        fix i assume "lo \<le> i \<and> i < j"
        then have "i = lo \<or> (lo + 1 \<le> i \<and> i < j)" by auto
        with False m show "\<not> matches g key e i" by auto
      qed
      ultimately show ?thesis using j by auto
    next
      assume m: "\<forall>i. lo + 1 \<le> i \<and> i \<le> hi \<longrightarrow> \<not> matches g key e i"
        and r: "findCorrectPoolsSlot_loop g s e hi (lo + 1) = ([lo + 1..hi], Inr None)"
      from le have "[lo..hi] = lo # [lo + 1..hi]"
        by (simp add: upto_rec1)
      with step r have "findCorrectPoolsSlot_loop g s e hi lo = ([lo..hi], Inr None)"
        by (simp add: visit_def)
      moreover have "\<forall>i. lo \<le> i \<and> i \<le> hi \<longrightarrow> \<not> matches g key e i"
      proof (intro allI impI)
        fix i assume "lo \<le> i \<and> i \<le> hi"
        then have "i = lo \<or> (lo + 1 \<le> i \<and> i \<le> hi)" by auto
        with False m show "\<not> matches g key e i" by auto
      qed
      ultimately show ?thesis by auto
    qed
  qed
qed

lemma loop_recovered:
  "w \<noteq> e \<Longrightarrow>
   findCorrectPoolsSlot_loop (recovered w g) s e hi lo = findCorrectPoolsSlot_loop g s e hi lo"
proof (induction "nat (hi + 1 - lo)" arbitrary: lo)
  case 0
  then have "hi < lo" by simp
  then show ?case by (simp add: loop_done)
next
  case (Suc n)
  then have le: "lo \<le> hi" by simp
  from Suc.hyps(2) have n: "n = nat (hi + 1 - (lo + 1))" by simp
  have ih: "findCorrectPoolsSlot_loop (recovered w g) s e hi (lo + 1) =
      findCorrectPoolsSlot_loop g s e hi (lo + 1)"
    by (rule Suc.hyps(1) [OF n Suc.prems])
  show ?case
    using le ih Suc.prems
    by (subst (1 2) findCorrectPoolsSlot_loop.simps)
       (auto simp add: readStorageSlot_def recovered_def split: sum.splits)
qed

lemma zero_provider_no_match: "e \<noteq> 0 \<Longrightarrow> \<not> matches zero_provider key e i"
  by (auto simp add: matches_def zero_provider_def)

lemma failing_provider_no_match: "\<not> matches failing_provider key e i"
  by (simp add: matches_def failing_provider_def)

text \<open>
  C5. For a pool id that denotes 32 bytes and a range of slot numbers within the safe
  integers, the loop reads the slots of the indices in ascending order and stops at the
  first index at which the provider returns the expected word: it returns the lowest
  matching index \<open>j\<close>, having read the indices from \<open>lo\<close> to \<open>j\<close>; when no index
  matches it reads them all and returns \<^verbatim>\<open>null\<close>. With the all-zero provider and
  a non-zero expected word it returns \<^verbatim>\<open>null\<close>.
\<close>

theorem findCorrectPoolsSlot_lowest_match:
  assumes "getBytes s = Inr key" and "length key = 32" and "0 \<le> lo" and "hi \<le> maxValue"
  shows "((\<exists>j. lo \<le> j \<and> j \<le> hi \<and> matches g key e j \<and>
            (\<forall>i. lo \<le> i \<and> i < j \<longrightarrow> \<not> matches g key e i) \<and>
            findCorrectPoolsSlot_loop g s e hi lo = ([lo..j], Inr (Some j)))
          \<or> ((\<forall>i. lo \<le> i \<and> i \<le> hi \<longrightarrow> \<not> matches g key e i) \<and>
              findCorrectPoolsSlot_loop g s e hi lo = ([lo..hi], Inr None)))
       \<and> (e \<noteq> 0 \<longrightarrow> findCorrectPoolsSlot_loop zero_provider s e hi lo = ([lo..hi], Inr None))"
proof -
  have "findCorrectPoolsSlot_loop zero_provider s e hi lo = ([lo..hi], Inr None)" if "e \<noteq> 0"
    using probe_outcome [OF assms(1,2,4,3), of zero_provider e] zero_provider_no_match [OF that]
    by auto
  with probe_outcome [OF assms(1,2,4,3), of g e] show ?thesis
    by blast
qed

theorem findCorrectPoolsSlot_lowest_match_witness:
  "findCorrectPoolsSlot zero_provider =
     ([0, 1, 2, 3, 4, 5, 6, 7, 8, 9, 10, 11, 12, 13, 14, 15, 16, 17, 18, 19, 20], Inr None) \<and>
   findCorrectPoolsSlot (constant_provider EXPECTED_RAW_DATA) = ([0], Inr (Some 0))"
proof -
  have h: "(0::int) \<le> 0" "(20::int) \<le> maxValue"
    by (simp_all add: maxValue_def)
  have e: "EXPECTED_RAW_DATA \<noteq> 0"
    by (simp add: EXPECTED_RAW_DATA_def)
  have u: "[0..20] = [0, 1, 2, 3, 4, 5, 6, 7, 8, 9, 10, 11, 12, 13, 14, 15, 16, 17, 18, 19, 20::int]"
    by (simp add: upto_rec1)
  from findCorrectPoolsSlot_lowest_match
    [OF known_pool_id_bytes known_pool_id_length h, of zero_provider EXPECTED_RAW_DATA] e
  have z: "findCorrectPoolsSlot zero_provider =
     ([0, 1, 2, 3, 4, 5, 6, 7, 8, 9, 10, 11, 12, 13, 14, 15, 16, 17, 18, 19, 20], Inr None)"
    unfolding findCorrectPoolsSlot_def u by blast
  have m: "matches (constant_provider EXPECTED_RAW_DATA) key EXPECTED_RAW_DATA i" for key i
    by (simp add: matches_def constant_provider_def)
  let ?P = "\<lambda>j. findCorrectPoolsSlot_loop (constant_provider EXPECTED_RAW_DATA) KNOWN_POOL_ID
       EXPECTED_RAW_DATA 20 0 = ([0..j], Inr (Some j))"
  have n: "\<not> (\<forall>i\<ge>0. \<not> i \<le> (20::int))"
    by (simp add: exI [of _ 0])
  from findCorrectPoolsSlot_lowest_match
    [OF known_pool_id_bytes known_pool_id_length h,
      of "constant_provider EXPECTED_RAW_DATA" EXPECTED_RAW_DATA]
  have "(\<exists>j\<ge>0. j \<le> 20 \<and> (\<forall>i\<ge>0. \<not> i < j) \<and> ?P j) \<or> (\<forall>i\<ge>0. \<not> i \<le> (20::int))"
    by (simp add: m) blast
  with n obtain j where j: "0 \<le> j" "\<forall>i\<ge>0. \<not> i < j" "?P j"
    by blast
  from j(2) have "\<not> 0 < j"
    by simp
  with j(1) have "j = 0"
    by simp
  with j(3) have c: "findCorrectPoolsSlot (constant_provider EXPECTED_RAW_DATA) = ([0], Inr (Some 0))"
    by (simp add: findCorrectPoolsSlot_def)
  from z c show ?thesis
    by (rule conjI)
qed

text \<open>
  C6, as stated, fails: when every read throws, \<^verbatim>\<open>findCorrectPoolsSlot\<close> still
  reads all 21 slots and returns \<^verbatim>\<open>null\<close>; no error reaches its caller.
\<close>

theorem findCorrectPoolsSlot_swallows_reader_failure:
  "findCorrectPoolsSlot failing_provider =
     ([0, 1, 2, 3, 4, 5, 6, 7, 8, 9, 10, 11, 12, 13, 14, 15, 16, 17, 18, 19, 20], Inr None)"
proof -
  have h: "(0::int) \<le> 0" "(20::int) \<le> maxValue"
    by (simp_all add: maxValue_def)
  have u: "[0..20] = [0, 1, 2, 3, 4, 5, 6, 7, 8, 9, 10, 11, 12, 13, 14, 15, 16, 17, 18, 19, 20::int]"
    by (simp add: upto_rec1)
  from probe_outcome [OF known_pool_id_bytes known_pool_id_length h(2,1),
      of failing_provider EXPECTED_RAW_DATA]
  show ?thesis
    unfolding findCorrectPoolsSlot_def u by (auto simp add: failing_provider_no_match)
qed

text \<open>
  C6, amended. \<^verbatim>\<open>readStorageSlot\<close> catches a failure of the provider and
  returns \<^verbatim>\<open>null\<close>, and the loop then moves on to the next index: the outcome of
  the probe is the one it has when each failed read returns a word other than the expected
  one, and it is never an error.
\<close>

theorem findCorrectPoolsSlot_skips_failed_reads:
  assumes "getBytes s = Inr key" and "length key = 32" and "0 \<le> lo" and "hi \<le> maxValue"
    and "w \<noteq> e"
  shows "findCorrectPoolsSlot_loop g s e hi lo = findCorrectPoolsSlot_loop (recovered w g) s e hi lo
       \<and> (\<exists>r. snd (findCorrectPoolsSlot_loop g s e hi lo) = Inr r)"
proof -
  from probe_outcome [OF assms(1,2,4,3), of g e]
  have "\<exists>r. snd (findCorrectPoolsSlot_loop g s e hi lo) = Inr r"
    by auto
  with loop_recovered [OF assms(5), of g s hi lo] show ?thesis
    by simp
qed

theorem findCorrectPoolsSlot_skips_failed_reads_witness:
  "findCorrectPoolsSlot_loop failing_provider KNOWN_POOL_ID EXPECTED_RAW_DATA 20 0 =
     findCorrectPoolsSlot_loop (recovered 0 failing_provider) KNOWN_POOL_ID EXPECTED_RAW_DATA 20 0
   \<and> (\<exists>r. snd (findCorrectPoolsSlot_loop failing_provider KNOWN_POOL_ID EXPECTED_RAW_DATA 20 0) =
          Inr r)"
proof -
  have h: "(0::int) \<le> 0" "(20::int) \<le> maxValue"
    by (simp_all add: maxValue_def)
  have e: "0 \<noteq> EXPECTED_RAW_DATA"
    by (simp add: EXPECTED_RAW_DATA_def)
  show ?thesis
    by (rule findCorrectPoolsSlot_skips_failed_reads [OF known_pool_id_bytes known_pool_id_length h e])
qed


section \<open>The pool identifier\<close>

subsection \<open>Addresses that differ only in case encode alike\<close>

lemma length_toLowerCase: "length (toLowerCase s) = length s"
  by (simp add: toLowerCase_def)

lemma toLowerCase_drop: "toLowerCase (drop n s) = drop n (toLowerCase s)"
  by (simp add: toLowerCase_def drop_map)

lemma toLowerCase_append: "toLowerCase (s @ t) = toLowerCase s @ toLowerCase t"
  by (simp add: toLowerCase_def)

lemma getChecksumAddress_cong:
  "toLowerCase x = toLowerCase y \<Longrightarrow> getChecksumAddress x = getChecksumAddress y"
  by (simp add: getChecksumAddress_def)

lemma address_body_cases:
  assumes "address_body s = Some body"
  shows "(length s = 42 \<and> body = drop 2 s) \<or> (length s = 40 \<and> body = s)"
  using assms by (auto simp add: address_body_def split: if_splits)

lemma address_body_lower:
  assumes "toLowerCase a = toLowerCase b"
    and "address_body a = Some ba" and "address_body b = Some bb"
  shows "toLowerCase (''0x'' @ ba) = toLowerCase (''0x'' @ bb)"
proof -
  from assms(1) have l: "length a = length b"
    by (metis length_toLowerCase)
  from address_body_cases [OF assms(2)] address_body_cases [OF assms(3)] l
  have "(ba = drop 2 a \<and> bb = drop 2 b) \<or> (ba = a \<and> bb = b)"
    by auto
  then have "toLowerCase ba = toLowerCase bb"
    using assms(1) by (auto simp add: toLowerCase_drop)
  then show ?thesis
    by (simp only: toLowerCase_append)
qed

lemma getAddress_cases:
  assumes "getAddress s = Inr r"
  shows "(\<exists>body. address_body s = Some body \<and> r = getChecksumAddress (''0x'' @ body)) \<or>
    (icap_match s \<and>
     r = getChecksumAddress
           (''0x'' @ replicate (40 - length (hex_string (fromBase36 (drop 4 s)))) CHR ''0'' @
            hex_string (fromBase36 (drop 4 s))))"
  using assms by (auto simp add: getAddress_def Let_def split: option.splits if_splits)

lemma fromBase36_lower:
  "toLowerCase a = toLowerCase b \<Longrightarrow> fromBase36 (drop 4 a) = fromBase36 (drop 4 b)"
  by (simp add: fromBase36_def toLowerCase_drop)

lemma icap_match_length: "icap_match s \<Longrightarrow> length s = 34 \<or> length s = 35"
  by (simp add: icap_match_def)

lemma address_body_length: "address_body s = Some body \<Longrightarrow> length s = 42 \<or> length s = 40"
  by (auto simp add: address_body_def split: if_splits)

lemma getAddress_lower:
  assumes "toLowerCase a = toLowerCase b"
    and "getAddress a = Inr ra" and "getAddress b = Inr rb"
  shows "ra = rb"
proof -
  from assms(1) have l: "length a = length b"
    by (metis length_toLowerCase)
  from getAddress_cases [OF assms(2)] show ?thesis
  proof (elim disjE exE conjE)
    fix ba
    assume ba: "address_body a = Some ba" and ra: "ra = getChecksumAddress (''0x'' @ ba)"
    from address_body_length [OF ba] l have "\<not> icap_match b"
      by (auto dest: icap_match_length)
    with getAddress_cases [OF assms(3)] obtain bb where bb: "address_body b = Some bb"
      and rb: "rb = getChecksumAddress (''0x'' @ bb)"
      by blast
    from getChecksumAddress_cong [OF address_body_lower [OF assms(1) ba bb]] ra rb
    show ?thesis by simp
  next
    assume ia: "icap_match a"
      and ra: "ra = getChecksumAddress
           (''0x'' @ replicate (40 - length (hex_string (fromBase36 (drop 4 a)))) CHR ''0'' @
            hex_string (fromBase36 (drop 4 a)))"
    from icap_match_length [OF ia] l have "address_body b = None"
      by (cases "address_body b") (auto dest: address_body_length)
    with getAddress_cases [OF assms(3)]
    have "rb = getChecksumAddress
           (''0x'' @ replicate (40 - length (hex_string (fromBase36 (drop 4 b)))) CHR ''0'' @
            hex_string (fromBase36 (drop 4 b)))"
      by simp
    with ra fromBase36_lower [OF assms(1)] show ?thesis
      by simp
  qed
qed

lemma AddressCoder_encode_lower:
  assumes "toLowerCase a = toLowerCase b"
    and "AddressCoder_encode a = Inr wa" and "AddressCoder_encode b = Inr wb"
  shows "wa = wb"
proof -
  from assms(2) obtain ra where ra: "getAddress a = Inr ra"
    by (auto simp add: AddressCoder_encode_def split: sum.splits)
  from assms(3) obtain rb where rb: "getAddress b = Inr rb"
    by (auto simp add: AddressCoder_encode_def split: sum.splits)
  from getAddress_lower [OF assms(1) ra rb] have "ra = rb" .
  with assms(2,3) ra rb show ?thesis
    by (simp add: AddressCoder_encode_def)
qed

lemma encode_two_addresses:
  assumes "AbiCoder_encode (AbiAddress a # AbiAddress b # rest) = Inr x"
  obtains wa wb r where "AddressCoder_encode a = Inr wa" and "AddressCoder_encode b = Inr wb"
    and "AbiCoder_encode rest = Inr r" and "x = wa @ wb @ r"
  using assms by (auto split: sum.splits)

lemma encode_swap_tie:
  assumes "toLowerCase a = toLowerCase b"
    and "AbiCoder_encode (AbiAddress b # AbiAddress a # rest) = Inr x"
  shows "AbiCoder_encode (AbiAddress a # AbiAddress b # rest) = Inr x"
proof -
  from assms(2) obtain wb wa r where w: "AddressCoder_encode b = Inr wb"
    "AddressCoder_encode a = Inr wa" "AbiCoder_encode rest = Inr r" "x = wb @ wa @ r"
    by (rule encode_two_addresses)
  from AddressCoder_encode_lower [OF assms(1) w(2,1)] have "wa = wb" .
  with w show ?thesis by simp
qed

lemma sortTokens_swap:
  "sortTokens a b = sortTokens b a \<or>
   (toLowerCase a = toLowerCase b \<and> sortTokens a b = (b, a) \<and> sortTokens b a = (a, b))"
  by (auto simp add: sortTokens_def)

text \<open>
  C3. Swapping the two currencies of a call never changes the identifier: whenever
  \<^verbatim>\<open>calculatePoolId\<close> returns an identifier for \<open>(a, b)\<close>, it returns the same
  identifier for \<open>(b, a)\<close>, with the same fee, tick spacing and hook.
\<close>

theorem calculatePoolId_swap_symmetric:
  assumes "calculatePoolId a b fee tickSpacing hook = Inr i"
  shows "calculatePoolId b a fee tickSpacing hook = Inr i"
proof -
  let ?rest = "[AbiUint 24 fee, AbiInt 24 tickSpacing, AbiAddress hook]"
  from sortTokens_swap [of a b] show ?thesis
  proof
    assume "sortTokens a b = sortTokens b a"
    with assms show ?thesis
      by (simp add: calculatePoolId_def)
  next
    assume t: "toLowerCase a = toLowerCase b \<and> sortTokens a b = (b, a) \<and> sortTokens b a = (a, b)"
    with assms obtain x where x: "AbiCoder_encode (AbiAddress b # AbiAddress a # ?rest) = Inr x"
      and i: "i = keccak256 x"
      by (auto simp add: calculatePoolId_def split: sum.splits)
    from t encode_swap_tie [OF _ x] have "AbiCoder_encode (AbiAddress a # AbiAddress b # ?rest) = Inr x"
      by simp
    with t i show ?thesis
      by (simp add: calculatePoolId_def)
  qed
qed

subsection \<open>Evaluating the encoder\<close>

text \<open>
  The checksummed form of an address differs from the address in the case of its letters
  only, so its bytes are those of the digits as written.
\<close>

lemma digit_toUpperCase_char: "digit (toUpperCase_char c) = digit c"
  by (auto simp add: digit_def hexval_def toUpperCase_char_def Let_def)

lemma digit_toLowerCase_char: "digit (toLowerCase_char c) = digit c"
  by (auto simp add: digit_def hexval_def toLowerCase_char_def Let_def)

lemma hex_value_cong:
  "list_all2 (\<lambda>c d. digit c = digit d) xs ys \<Longrightarrow> hex_value xs = hex_value ys"
proof (induction xs ys rule: list_all2_induct)
  case Nil
  then show ?case by simp
next
  case (Cons x xs y ys)
  from Cons.hyps(2) have "length xs = length ys"
    by (rule list_all2_lengthD)
  with Cons.hyps(1) Cons.IH show ?case by simp
qed

lemma length_nibbles: "length (nibbles bs) = 2 * length bs"
  by (induction bs) (simp_all add: nibbles_def)

lemma checksum_value:
  assumes "length body = 40"
  shows "hex_value (drop 2 (getChecksumAddress (''0x'' @ body))) = hex_value body"
proof -
  define chars where "chars = toLowerCase body"
  define ns where "ns = nibbles (take 20 (keccak256 (map (\<lambda>c. of_nat (of_char c)) chars)))"
  define cs where "cs = map2 (\<lambda>c h. if 8 \<le> h then toUpperCase_char c else c) chars ns"
  have lc: "length chars = 40"
    using assms by (simp add: chars_def length_toLowerCase)
  have ln: "length ns = 40"
    by (simp add: ns_def length_nibbles length_keccak256)
  have "drop 2 (toLowerCase (''0x'' @ body)) = chars"
    by (simp add: chars_def toLowerCase_def)
  then have g: "getChecksumAddress (''0x'' @ body) = ''0x'' @ cs"
    using lc by (simp add: getChecksumAddress_def Let_def cs_def ns_def)
  have "list_all2 (\<lambda>c d. digit c = digit d) cs body"
    unfolding list_all2_conv_all_nth
    using lc ln assms
    by (auto simp add: cs_def chars_def toLowerCase_def digit_toUpperCase_char
        digit_toLowerCase_char)
  then have "hex_value cs = hex_value body"
    by (rule hex_value_cong)
  then show ?thesis
    unfolding g by simp
qed

lemma AddressCoder_encode_plain:
  assumes "address_body s = Some body" and "\<not> mixed_case (''0x'' @ body)"
  shows "AddressCoder_encode s = writeValue (int (hex_value body))"
proof -
  from assms(1) have "length body = 40"
    by (auto simp add: address_body_def split: if_splits)
  from checksum_value [OF this] assms show ?thesis
    by (simp add: AddressCoder_encode_def getAddress_def Let_def)
qed

lemma AddressCoder_encode_value:
  assumes "address_body s = Some body" and "\<not> mixed_case (''0x'' @ body)"
    and "int (hex_value body) = v" and "v < 2 ^ 256"
  shows "AddressCoder_encode s = Inr (be32 v)"
proof -
  from assms(3) have "0 \<le> v"
    by auto
  from AddressCoder_encode_plain [OF assms(1,2)] writeValue_be32 [OF this assms(4)] assms(3)
  show ?thesis
    by simp
qed

lemma uint24_encode_ok:
  assumes "0 \<le> n" and "n < 2 ^ 24"
  shows "NumberCoder_encode 24 False (Number n) = Inr (be32 n)"
proof -
  from assms have "getBigInt (Number n) = Inr n" "\<not> n > mask 24" "n < 2 ^ 256"
    by (simp_all add: maxValue_def mask_eq_exp_minus_1)
  with assms(1) writeValue_be32 [OF assms(1) this(3)] show ?thesis
    by (simp add: NumberCoder_encode_def)
qed

lemma int24_encode_nonneg:
  assumes "0 \<le> n" and "n < 2 ^ 23"
  shows "NumberCoder_encode 24 True (Number n) = Inr (be32 n)"
proof -
  from assms have g: "getBigInt (Number n) = Inr n" and m: "\<not> n > mask 23" and u: "n < 2 ^ 256"
    by (simp_all add: maxValue_def mask_eq_exp_minus_1)
  from assms have t: "toTwos n 256 = Inr n"
    by (simp add: toTwos_def Let_def)
  from m have m': "\<not> n > mask (24 - 1)" by simp
  from assms(1) have l: "\<not> n < - (mask (24 - 1) + 1)"
    by (simp add: mask_eq_exp_minus_1)
  from g m' l t writeValue_be32 [OF assms(1) u] show ?thesis
    by (simp add: NumberCoder_encode_def Let_def del: One_nat_def)
qed

lemma encode_currency0:
  "AddressCoder_encode ''0x77933d339c88458450676156820d6e28bcc98bf5'' =
     Inr (be32 0x77933d339c88458450676156820d6e28bcc98bf5)"
  by (rule AddressCoder_encode_value [where body = "''77933d339c88458450676156820d6e28bcc98bf5''"])
     (simp_all add: address_body_def is_hex_def hexval_def mixed_case_def digit_def)

lemma encode_currency1:
  "AddressCoder_encode ''0xfb4cccd1485fd56c1e6bf93274778d2f7abe546d'' =
     Inr (be32 0xfb4cccd1485fd56c1e6bf93274778d2f7abe546d)"
  by (rule AddressCoder_encode_value [where body = "''fb4cccd1485fd56c1e6bf93274778d2f7abe546d''"])
     (simp_all add: address_body_def is_hex_def hexval_def mixed_case_def digit_def)

lemma encode_hook:
  "AddressCoder_encode ''0x70fe3fa2f8065898706674acd03d7b2696161000'' =
     Inr (be32 0x70fe3fa2f8065898706674acd03d7b2696161000)"
  by (rule AddressCoder_encode_value [where body = "''70fe3fa2f8065898706674acd03d7b2696161000''"])
     (simp_all add: address_body_def is_hex_def hexval_def mixed_case_def digit_def)

lemma encode_prefixed_one:
  "AddressCoder_encode ''0x0000000000000000000000000000000000000001'' =
     Inr (be32 0x1)"
  by (rule AddressCoder_encode_value [where body = "''0000000000000000000000000000000000000001''"])
     (simp_all add: address_body_def is_hex_def hexval_def mixed_case_def digit_def)

lemma encode_prefixed_two:
  "AddressCoder_encode ''0x0000000000000000000000000000000000000002'' =
     Inr (be32 0x2)"
  by (rule AddressCoder_encode_value [where body = "''0000000000000000000000000000000000000002''"])
     (simp_all add: address_body_def is_hex_def hexval_def mixed_case_def digit_def)

lemma encode_bare_two:
  "AddressCoder_encode ''0000000000000000000000000000000000000002'' =
     Inr (be32 0x2)"
  by (rule AddressCoder_encode_value [where body = "''0000000000000000000000000000000000000002''"])
     (simp_all add: address_body_def is_hex_def hexval_def mixed_case_def digit_def)

lemma encode_zero:
  "AddressCoder_encode ''0x0000000000000000000000000000000000000000'' =
     Inr (be32 0)"
  by (rule AddressCoder_encode_value [where body = "''0000000000000000000000000000000000000000''"])
     (simp_all add: address_body_def is_hex_def hexval_def mixed_case_def digit_def)

theorem calculatePoolId_swap_symmetric_witness:
  "calculatePoolId ''0x77933d339c88458450676156820d6e28bcc98bf5''
       ''0xfb4cccd1485fd56c1e6bf93274778d2f7abe546d'' (Number 8388608) (Number 60)
       ''0x70fe3fa2f8065898706674acd03d7b2696161000'' =
     Inr (keccak256
       (be32 0x77933d339c88458450676156820d6e28bcc98bf5 @
        be32 0xfb4cccd1485fd56c1e6bf93274778d2f7abe546d @
        be32 8388608 @ be32 60 @ be32 0x70fe3fa2f8065898706674acd03d7b2696161000)) \<and>
   calculatePoolId ''0xfb4cccd1485fd56c1e6bf93274778d2f7abe546d''
       ''0x77933d339c88458450676156820d6e28bcc98bf5'' (Number 8388608) (Number 60)
       ''0x70fe3fa2f8065898706674acd03d7b2696161000'' =
     Inr (keccak256
       (be32 0x77933d339c88458450676156820d6e28bcc98bf5 @
        be32 0xfb4cccd1485fd56c1e6bf93274778d2f7abe546d @
        be32 8388608 @ be32 60 @ be32 0x70fe3fa2f8065898706674acd03d7b2696161000))"
proof -
  have s: "sortTokens ''0x77933d339c88458450676156820d6e28bcc98bf5''
      ''0xfb4cccd1485fd56c1e6bf93274778d2f7abe546d'' =
    (''0x77933d339c88458450676156820d6e28bcc98bf5'', ''0xfb4cccd1485fd56c1e6bf93274778d2f7abe546d'')"
    by (simp add: sortTokens_def toLowerCase_def toLowerCase_char_def less_char_def)
  have f: "NumberCoder_encode 24 False (Number 8388608) = Inr (be32 8388608)"
    by (rule uint24_encode_ok) simp_all
  have t: "NumberCoder_encode 24 True (Number 60) = Inr (be32 60)"
    by (rule int24_encode_nonneg) simp_all
  have h: "calculatePoolId ''0x77933d339c88458450676156820d6e28bcc98bf5''
       ''0xfb4cccd1485fd56c1e6bf93274778d2f7abe546d'' (Number 8388608) (Number 60)
       ''0x70fe3fa2f8065898706674acd03d7b2696161000'' =
     Inr (keccak256
       (be32 0x77933d339c88458450676156820d6e28bcc98bf5 @
        be32 0xfb4cccd1485fd56c1e6bf93274778d2f7abe546d @
        be32 8388608 @ be32 60 @ be32 0x70fe3fa2f8065898706674acd03d7b2696161000))"
    unfolding calculatePoolId_def s
    by (simp add: encode_currency0 encode_currency1 encode_hook f t)
  from h calculatePoolId_swap_symmetric [OF h] show ?thesis
    by (rule conjI)
qed


subsection \<open>The order of the two currencies\<close>

text \<open>
  For two addresses in the usual notation the order of the lower-cased strings is the
  order of the numbers: the digits \<^verbatim>\<open>0\<close> to \<^verbatim>\<open>9\<close> precede the letters
  \<^verbatim>\<open>a\<close> to \<^verbatim>\<open>f\<close>, and the strings have the same length.
\<close>

lemma positional_less:
  fixes a b r s n :: nat
  assumes "r < n" and "s < n"
  shows "a * n + r < b * n + s \<longleftrightarrow> a < b \<or> (a = b \<and> r < s)"
proof (cases a b rule: linorder_cases)
  case less
  then have "Suc a \<le> b" by simp
  then have "Suc a * n \<le> b * n" by (rule mult_le_mono1)
  with assms(1) have "a * n + r < b * n + s" by simp
  with less show ?thesis by simp
next
  case equal
  then show ?thesis by simp
next
  case greater
  then have "Suc b \<le> a" by simp
  then have "Suc b * n \<le> a * n" by (rule mult_le_mono1)
  with assms(2) have "b * n + s < a * n + r" by simp
  with greater show ?thesis by simp
qed

lemma digit_less_16: "digit c < 16"
  by (auto simp add: digit_def hexval_def Let_def)

lemma hex_value_bound: "hex_value cs < 16 ^ length cs"
proof (induction cs)
  case Nil
  then show ?case by simp
next
  case (Cons c cs)
  define N :: nat where "N = 16 ^ length cs"
  have "Suc (digit c) \<le> 16"
    using digit_less_16 [of c] by simp
  then have m: "Suc (digit c) * N \<le> 16 * N"
    by (rule mult_le_mono1)
  from Cons.IH have "digit c * N + hex_value cs < Suc (digit c) * N"
    by (simp add: N_def)
  from this m have "digit c * N + hex_value cs < 16 * N"
    by (rule less_le_trans)
  then show ?case
    by (simp add: N_def)
qed

lemma lower_hex_order:
  assumes "is_hex x" and "is_hex y"
  shows "toLowerCase_char x < toLowerCase_char y \<longleftrightarrow> digit x < digit y"
    and "toLowerCase_char x = toLowerCase_char y \<longleftrightarrow> digit x = digit y"
proof -
  define m where "m = (of_char (toLowerCase_char x) :: nat)"
  define n where "n = (of_char (toLowerCase_char y) :: nat)"
  have dx: "(48 \<le> m \<and> m \<le> 57 \<and> digit x = m - 48) \<or> (97 \<le> m \<and> m \<le> 102 \<and> digit x = m - 87)"
    using assms(1)
    by (auto simp add: m_def is_hex_def digit_def hexval_def toLowerCase_char_def Let_def
        split: if_splits)
  have dy: "(48 \<le> n \<and> n \<le> 57 \<and> digit y = n - 48) \<or> (97 \<le> n \<and> n \<le> 102 \<and> digit y = n - 87)"
    using assms(2)
    by (auto simp add: n_def is_hex_def digit_def hexval_def toLowerCase_char_def Let_def
        split: if_splits)
  have l: "toLowerCase_char x < toLowerCase_char y \<longleftrightarrow> m < n"
    by (simp add: less_char_def m_def n_def)
  have e: "toLowerCase_char x = toLowerCase_char y \<longleftrightarrow> m = n"
    unfolding m_def n_def by (metis of_char_eq_iff)
  from dx dy show "toLowerCase_char x < toLowerCase_char y \<longleftrightarrow> digit x < digit y"
    unfolding l by auto
  from dx dy show "toLowerCase_char x = toLowerCase_char y \<longleftrightarrow> digit x = digit y"
    unfolding e by auto
qed

lemma lower_hex_strings_order:
  assumes "length xs = length ys" and "list_all is_hex xs" and "list_all is_hex ys"
  shows "toLowerCase xs < toLowerCase ys \<longleftrightarrow> hex_value xs < hex_value ys"
  using assms
proof (induction xs ys rule: list_induct2)
  case Nil
  then show ?case by (simp add: toLowerCase_def)
next
  case (Cons x xs y ys)
  then have h: "is_hex x" "is_hex y" and r: "list_all is_hex xs" "list_all is_hex ys"
    by simp_all
  have ih: "toLowerCase xs < toLowerCase ys \<longleftrightarrow> hex_value xs < hex_value ys"
    by (rule Cons.IH [OF r])
  have b: "hex_value xs < 16 ^ length ys" "hex_value ys < 16 ^ length ys"
    using hex_value_bound [of xs] hex_value_bound [of ys] Cons.hyps by simp_all
  have "toLowerCase (x # xs) < toLowerCase (y # ys) \<longleftrightarrow>
      toLowerCase_char x < toLowerCase_char y \<or>
      (toLowerCase_char x = toLowerCase_char y \<and> toLowerCase xs < toLowerCase ys)"
    by (simp add: toLowerCase_def)
  also have "\<dots> \<longleftrightarrow> digit x < digit y \<or> (digit x = digit y \<and> hex_value xs < hex_value ys)"
    by (simp only: lower_hex_order [OF h] ih)
  also have "\<dots> \<longleftrightarrow> hex_value (x # xs) < hex_value (y # ys)"
    using positional_less [OF b, of "digit x" "digit y"] Cons.hyps by simp
  finally show ?case .
qed

lemma prefixed_address_lower:
  assumes "prefixed_address s"
  shows "toLowerCase s = ''0x'' @ toLowerCase (drop 2 s)"
proof -
  from assms have "s = ''0x'' @ drop 2 s"
    by (metis append_take_drop_id prefixed_address_def)
  then have "toLowerCase s = toLowerCase (''0x'' @ drop 2 s)"
    by simp
  then show ?thesis
    by (simp add: toLowerCase_append) (simp add: toLowerCase_def toLowerCase_char_def)
qed

lemma text_order_is_numeric_order:
  assumes "prefixed_address a" and "prefixed_address b"
  shows "toLowerCase a < toLowerCase b \<longleftrightarrow> hex_value (drop 2 a) < hex_value (drop 2 b)"
proof -
  from assms have "length (drop 2 a) = length (drop 2 b)"
    and "list_all is_hex (drop 2 a)" and "list_all is_hex (drop 2 b)"
    by (simp_all add: prefixed_address_def)
  from lower_hex_strings_order [OF this] show ?thesis
    by (simp add: prefixed_address_lower [OF assms(1)] prefixed_address_lower [OF assms(2)])
qed

lemma sortTokens_prefixed:
  assumes "prefixed_address a" and "prefixed_address b"
  shows "sortTokens a b =
           (if hex_value (drop 2 a) < hex_value (drop 2 b) then (a, b) else (b, a))"
  by (simp add: sortTokens_def text_order_is_numeric_order [OF assms])


text \<open>
  The number compared is the number encoded: an address in the usual notation, if it
  encodes at all, encodes to the 32-byte form of the number its digits denote. So for two
  such addresses the smaller number is encoded first.
\<close>

lemma AddressCoder_encode_prefixed:
  assumes "prefixed_address s" and "AddressCoder_encode s = Inr w"
  shows "w = be32 (int (hex_value (drop 2 s)))"
proof -
  from assms(1) have b: "address_body s = Some (drop 2 s)" and l: "length (drop 2 s) = 40"
    by (simp_all add: prefixed_address_def address_body_def)
  from assms(2) obtain r where r: "getAddress s = Inr r"
    and w: "writeValue (int (hex_value (drop 2 r))) = Inr w"
    by (auto simp add: AddressCoder_encode_def split: sum.splits)
  from r b have "r = getChecksumAddress (''0x'' @ drop 2 s)"
    by (auto simp add: getAddress_def Let_def split: if_splits)
  with checksum_value [OF l] have v: "hex_value (drop 2 r) = hex_value (drop 2 s)"
    by simp
  have "hex_value (drop 2 s) < 16 ^ 40"
    using hex_value_bound [of "drop 2 s"] l by simp
  then have "int (hex_value (drop 2 s)) < 2 ^ 256"
    by simp
  from writeValue_be32 [OF _ this] w v show ?thesis
    by simp
qed

lemma calculatePoolId_prefixed_smaller_first:
  assumes "prefixed_address a" and "prefixed_address b"
    and "calculatePoolId a b fee tickSpacing hook = Inr i"
  shows "\<exists>rest. i = keccak256
           (be32 (min (int (hex_value (drop 2 a))) (int (hex_value (drop 2 b)))) @
            be32 (max (int (hex_value (drop 2 a))) (int (hex_value (drop 2 b)))) @ rest)"
proof -
  let ?rest = "[AbiUint 24 fee, AbiInt 24 tickSpacing, AbiAddress hook]"
  show ?thesis
  proof (cases "hex_value (drop 2 a) < hex_value (drop 2 b)")
    case True
    with assms obtain x where x: "AbiCoder_encode (AbiAddress a # AbiAddress b # ?rest) = Inr x"
      and i: "i = keccak256 x"
      by (auto simp add: calculatePoolId_def sortTokens_prefixed split: sum.splits)
    from x obtain wa wb r where w: "AddressCoder_encode a = Inr wa"
      "AddressCoder_encode b = Inr wb" "x = wa @ wb @ r"
      by (rule encode_two_addresses)
    from AddressCoder_encode_prefixed [OF assms(1) w(1)]
      AddressCoder_encode_prefixed [OF assms(2) w(2)] w(3) i True
    show ?thesis
      by (auto simp add: min_def max_def)
  next
    case False
    with assms obtain x where x: "AbiCoder_encode (AbiAddress b # AbiAddress a # ?rest) = Inr x"
      and i: "i = keccak256 x"
      by (auto simp add: calculatePoolId_def sortTokens_prefixed split: sum.splits)
    from x obtain wb wa r where w: "AddressCoder_encode b = Inr wb"
      "AddressCoder_encode a = Inr wa" "x = wb @ wa @ r"
      by (rule encode_two_addresses)
    from AddressCoder_encode_prefixed [OF assms(2) w(1)]
      AddressCoder_encode_prefixed [OF assms(1) w(2)] w(3) i False
    show ?thesis
      by (auto simp add: min_def max_def)
  qed
qed

lemma be32_one_two: "be32 2 \<noteq> be32 1"
proof
  assume "be32 2 = be32 1"
  then have "be32 2 ! 31 = be32 1 ! 31"
    by simp
  then show False
    by (simp add: be32_def)
qed

text \<open>
  C4 fails at a pair of addresses of which one is written without its \<^verbatim>\<open>0x\<close>
  prefix, a notation the encoder accepts. The two currencies are ordered as text: of the
  addresses 1 (prefixed) and 2 (bare), the bare one sorts first because \<^verbatim>\<open>0\<close>
  precedes \<^verbatim>\<open>x\<close>, and the numerically larger address 2 is encoded first. When both
  are prefixed, address 1 is encoded first, so the same pair of addresses is hashed from
  two different byte sequences.
\<close>

theorem calculatePoolId_bare_address_order:
  "sortTokens ''0x0000000000000000000000000000000000000001''
       ''0000000000000000000000000000000000000002'' =
     (''0000000000000000000000000000000000000002'', ''0x0000000000000000000000000000000000000001'') \<and>
   calculatePoolId ''0x0000000000000000000000000000000000000001''
       ''0000000000000000000000000000000000000002'' (Number 3000) (Number 60) ZeroAddress =
     Inr (keccak256 (be32 2 @ be32 1 @ be32 3000 @ be32 60 @ be32 0)) \<and>
   calculatePoolId ''0x0000000000000000000000000000000000000001''
       ''0x0000000000000000000000000000000000000002'' (Number 3000) (Number 60) ZeroAddress =
     Inr (keccak256 (be32 1 @ be32 2 @ be32 3000 @ be32 60 @ be32 0)) \<and>
   be32 2 \<noteq> be32 1"
proof -
  have s: "sortTokens ''0x0000000000000000000000000000000000000001''
       ''0000000000000000000000000000000000000002'' =
     (''0000000000000000000000000000000000000002'', ''0x0000000000000000000000000000000000000001'')"
    by (simp add: sortTokens_def toLowerCase_def toLowerCase_char_def less_char_def)
  have s': "sortTokens ''0x0000000000000000000000000000000000000001''
       ''0x0000000000000000000000000000000000000002'' =
     (''0x0000000000000000000000000000000000000001'', ''0x0000000000000000000000000000000000000002'')"
    by (simp add: sortTokens_def toLowerCase_def toLowerCase_char_def less_char_def)
  have f: "NumberCoder_encode 24 False (Number 3000) = Inr (be32 3000)"
    by (rule uint24_encode_ok) simp_all
  have t: "NumberCoder_encode 24 True (Number 60) = Inr (be32 60)"
    by (rule int24_encode_nonneg) simp_all
  have a: "calculatePoolId ''0x0000000000000000000000000000000000000001''
       ''0000000000000000000000000000000000000002'' (Number 3000) (Number 60) ZeroAddress =
     Inr (keccak256 (be32 2 @ be32 1 @ be32 3000 @ be32 60 @ be32 0))"
    unfolding calculatePoolId_def s ZeroAddress_def
    by (simp add: encode_prefixed_one encode_bare_two encode_zero f t)
  have b: "calculatePoolId ''0x0000000000000000000000000000000000000001''
       ''0x0000000000000000000000000000000000000002'' (Number 3000) (Number 60) ZeroAddress =
     Inr (keccak256 (be32 1 @ be32 2 @ be32 3000 @ be32 60 @ be32 0))"
    unfolding calculatePoolId_def s' ZeroAddress_def
    by (simp add: encode_prefixed_one encode_prefixed_two encode_zero f t)
  from s a b be32_one_two show ?thesis
    by blast
qed

end
